theory Spec2Isabelle
  imports Complex_Main "HOL-Library.AList"
begin

section \<open>JavaScript values\<close>

text \<open>
  The registry and the classification service answer with JSON, and the source reads
  those answers through \<^verbatim>\<open>any\<close>: the declared field types are not enforced at
  run time. The model therefore keeps the run-time values. \<open>Undefined\<close> is the result of
  reading a missing property; \<open>ProtoMember k\<close> is the member named \<open>k\<close> that every
  ordinary object inherits from \<^verbatim>\<open>Object.prototype\<close> (a function object, truthy, not
  a string). JSON numbers are modelled by integers: the code only tests them for
  truthiness and converts them to text. A string is the list of the bytes of its UTF-8
  form; a surrogate that is not part of a pair, which UTF-8 cannot write, is written
  as the three bytes that its code point would take (the first is ED, the second lies
  between A0 and BF).
\<close>

datatype js =
    Undefined
  | Null
  | Bool bool
  | Num int
  | Str string
  | Arr "js list"
  | Obj "(string \<times> js) list"
  | ProtoMember string

datatype error =
    CreditLimitReached
  | ApiKeyNotConfigured
  | CrossrefStatus nat
  | Kgx3Status nat
  | NoWorkData
  | FetchRejected
  | BodySyntaxError
  | TypeError
  | URIError

text \<open>ToBoolean: what \<^verbatim>\<open>!x\<close>, \<^verbatim>\<open>x || y\<close> and \<^verbatim>\<open>if (x)\<close> test.\<close>

fun truthy :: "js \<Rightarrow> bool" where
  "truthy Undefined = False"
| "truthy Null = False"
| "truthy (Bool b) = b"
| "truthy (Num n) = (n \<noteq> 0)"
| "truthy (Str s) = (s \<noteq> [])"
| "truthy (Arr xs) = True"
| "truthy (Obj kvs) = True"
| "truthy (ProtoMember k) = True"

definition js_or :: "js \<Rightarrow> js \<Rightarrow> js" where
  "js_or a b = (if truthy a then a else b)"

fun nullish :: "js \<Rightarrow> bool" where
  "nullish Undefined = True"
| "nullish Null = True"
| "nullish v = False"

fun isArray :: "js \<Rightarrow> bool" where
  "isArray (Arr xs) = True"
| "isArray v = False"

text \<open>The property names that an object literal inherits from \<^verbatim>\<open>Object.prototype\<close>.\<close>

definition object_prototype_names :: "string list" where
  "object_prototype_names =
     [''constructor'', ''hasOwnProperty'', ''isPrototypeOf'', ''propertyIsEnumerable'',
      ''toLocaleString'', ''toString'', ''valueOf'', ''__proto__'',
      ''__defineGetter__'', ''__defineSetter__'', ''__lookupGetter__'', ''__lookupSetter__'']"

text \<open>
  Property read \<^verbatim>\<open>v.k\<close> / \<^verbatim>\<open>v[k]\<close> for a string key. Reading a property of
  \<^verbatim>\<open>undefined\<close> or \<^verbatim>\<open>null\<close> throws a TypeError. An object answers with its own
  property, then with the inherited member, then with \<^verbatim>\<open>undefined\<close>. For the other
  values the model answers \<^verbatim>\<open>undefined\<close>: the source reads from them only the fixed
  names message, title, author, link, container-title, published, date-parts,
  content-type, URL, given, family, classification and confidence, none of which
  an array, number or boolean has (a string has the method \<^verbatim>\<open>link\<close>, which the source
  only passes to \<^verbatim>\<open>Array.isArray\<close>, where it behaves as \<^verbatim>\<open>undefined\<close> does).
\<close>

fun get :: "js \<Rightarrow> string \<Rightarrow> error + js" where
  "get Undefined k = Inl TypeError"
| "get Null k = Inl TypeError"
| "get (Obj kvs) k =
     (case map_of kvs k of
        Some v \<Rightarrow> Inr v
      | None \<Rightarrow> if k \<in> set object_prototype_names then Inr (ProtoMember k) else Inr Undefined)"
| "get v k = Inr Undefined"

text \<open>Optional chaining \<^verbatim>\<open>v?.k\<close>: \<^verbatim>\<open>undefined\<close> when \<open>v\<close> is nullish, never a throw.\<close>

definition get_opt :: "js \<Rightarrow> string \<Rightarrow> js" where
  "get_opt v k = (case get v k of Inl e \<Rightarrow> Undefined | Inr x \<Rightarrow> x)"

text \<open>Element read \<^verbatim>\<open>v[0]\<close> on a value that is not nullish.\<close>

fun index0 :: "js \<Rightarrow> js" where
  "index0 (Arr xs) = (case xs of [] \<Rightarrow> Undefined | x # _ \<Rightarrow> x)"
| "index0 (Str s) = (case s of [] \<Rightarrow> Undefined | c # _ \<Rightarrow> Str [c])"
| "index0 (Obj kvs) = (case map_of kvs ''0'' of Some v \<Rightarrow> v | None \<Rightarrow> Undefined)"
| "index0 v = Undefined"

definition index0_opt :: "js \<Rightarrow> js" where
  "index0_opt v = (if nullish v then Undefined else index0 v)"

subsection \<open>ToString\<close>

definition digit_char :: "nat \<Rightarrow> char" where
  "digit_char n = char_of (48 + n)"

fun show_nat :: "nat \<Rightarrow> string" where
  "show_nat n = (if n < 10 then [digit_char n] else show_nat (n div 10) @ [digit_char (n mod 10)])"

definition show_int :: "int \<Rightarrow> string" where
  "show_int i = (if i < 0 then CHR ''-'' # show_nat (nat (- i)) else show_nat (nat i))"

fun join :: "string \<Rightarrow> string list \<Rightarrow> string" where
  "join sep [] = []"
| "join sep [x] = x"
| "join sep (x # y # ys) = x @ sep @ join sep (y # ys)"

text \<open>
  ToString, as a template literal and a computed property key apply it. An array joins
  its elements with commas, \<^verbatim>\<open>null\<close> and \<^verbatim>\<open>undefined\<close> elements giving the empty
  string. An object parsed from JSON that has a property \<^verbatim>\<open>toString\<close> of its own has
  no string conversion: the property is not callable and \<^verbatim>\<open>valueOf\<close> gives no
  primitive, so the conversion throws a TypeError, also when the object is an element
  of an array that is converted.
\<close>

fun convertible :: "js \<Rightarrow> bool" where
  "convertible (Obj kvs) = (map_of kvs ''toString'' = None)"
| "convertible (Arr xs) = (\<forall>x \<in> set xs. convertible x)"
| "convertible v = True"

fun to_string_raw :: "js \<Rightarrow> string" where
  "to_string_raw Undefined = ''undefined''"
| "to_string_raw Null = ''null''"
| "to_string_raw (Bool b) = (if b then ''true'' else ''false'')"
| "to_string_raw (Num n) = show_int n"
| "to_string_raw (Str s) = s"
| "to_string_raw (Arr xs) = join '','' (map (\<lambda>x. if nullish x then [] else to_string_raw x) xs)"
| "to_string_raw (Obj kvs) = ''[object Object]''"
| "to_string_raw (ProtoMember k) = ''function '' @ k @ ''() { [native code] }''"

definition to_string :: "js \<Rightarrow> error + string" where
  "to_string v = (if convertible v then Inr (to_string_raw v) else Inl TypeError)"

text \<open>
  \<^verbatim>\<open>encodeURIComponent\<close> throws a URIError on a string that holds a surrogate outside
  a pair. Strings are lists of 8-bit characters holding the text in the generalised
  UTF-8 encoding, in which a paired surrogate is part of a four-byte sequence and a
  surrogate outside a pair is the three-byte sequence that starts with the byte 237
  followed by a byte from 160 to 191.
\<close>

fun has_lone_surrogate :: "string \<Rightarrow> bool" where
  "has_lone_surrogate (a # b # rest) =
     (((of_char a :: nat) = 237 \<and> 160 \<le> (of_char b :: nat) \<and> (of_char b :: nat) \<le> 191)
      \<or> has_lone_surrogate (b # rest))"
| "has_lone_surrogate s = False"

section \<open>Badge mapper\<close>

definition mapping :: "(string \<times> js) list" where
  "mapping =
     [(''Paradigm Shift'', Str ''paradigm-shift''),
      (''Model Revolution'', Str ''model-revolution''),
      (''Normal Science'', Str ''normal-science''),
      (''Model Crisis'', Str ''model-crisis''),
      (''Model Drift'', Str ''model-drift'')]"

text \<open>
  \<^verbatim>\<open>return mapping[classification] || null\<close>. The table is an object literal, so the
  read goes through \<open>get\<close> on an object; the key is the argument converted to a string,
  which throws when the argument has no string conversion.
\<close>

definition mapClassificationToBadge :: "js \<Rightarrow> error + js" where
  "mapClassificationToBadge classification =
     (case to_string classification of
        Inl e \<Rightarrow> Inl e
      | Inr key \<Rightarrow>
          (case get (Obj mapping) key of
             Inl e \<Rightarrow> Inl e
           | Inr v \<Rightarrow> Inr (js_or v Null)))"

section \<open>Data model\<close>

record DoiMetadata =
  title :: js
  pdfUrl :: js
  authors :: js
  journal :: js
  year :: js

record Classification =
  class_label :: js
  confidence :: js

record CacheEntry =
  doi :: string
  metadata :: DoiMetadata
  classification :: "Classification option"
  processedAt :: string

text \<open>
  \<open>entries\<close> holds the own properties of \<^verbatim>\<open>cache.entries\<close> in insertion order;
  \<open>map_of\<close> reads a key and \<open>AList.update\<close> assigns one. A key that is only inherited
  from \<^verbatim>\<open>Object.prototype\<close> reads as a truthy value with neither a classification nor
  metadata, so \<^verbatim>\<open>processDoi\<close> treats it as it treats a missing key, and assigning
  it creates the own property. The one name that behaves otherwise is \<^verbatim>\<open>__proto__\<close>,
  whose assignment replaces the prototype instead of adding a property: a call of
  \<^verbatim>\<open>processDoi\<close> with that argument reads back what it stored, as the model says,
  but the key is not enumerated and the fields of the stored entry become readable
  under their own names. The model keeps \<^verbatim>\<open>__proto__\<close> as an ordinary key.
  An entry always holds its metadata, as the interface declares, and a stored
  classification is an object, hence truthy.
\<close>

record CacheData =
  entries :: "(string \<times> CacheEntry) list"
  creditsUsed :: real
  lastUpdated :: string

section \<open>Environment and state\<close>

text \<open>
  What the outside world answers. \<open>Rejected\<close> is a \<^verbatim>\<open>fetch\<close> whose promise rejects
  (connection failure, timeout); \<open>Response ok status body\<close> carries \<^verbatim>\<open>response.ok\<close>,
  \<^verbatim>\<open>response.status\<close> and the parsed body, \<open>None\<close> when \<^verbatim>\<open>response.json()\<close> rejects.
\<close>

datatype fetch_reply = Rejected | Response bool nat "js option"

datatype net_call = CrossrefGet string | Kgx3Post js js

text \<open>
  The configuration module is not part of the sources: its constants are parameters,
  as are the answers of the network, the clock and the file system. Each answer is
  indexed by \<open>ticks\<close>, the number of earlier interactions with the outside world, so
  that the same request may be answered differently each time. The credit limit and the
  counter are JavaScript numbers, modelled by real numbers: nothing in the sources makes
  either of them a whole number (the rounding and the special values of floating point
  are left out). The contact address \<^verbatim>\<open>CROSSREF_EMAIL\<close> only travels in the
  requests and is left out, as are the URLs and headers.

  Modelled from the spec: the logger, whose module is not part of the sources either,
  emits a line and does nothing else; it never throws and never touches the cache.
  Its calls are therefore omitted.

  \<^verbatim>\<open>loadCache\<close> replaces the cache by what the file holds; no statement below is about
  it and it is not modelled. Calls are sequential: one operation runs to its end before
  the next starts.
\<close>

record env =
  CREDIT_LIMIT :: real
  KGX3_API_KEY :: "string option"
  crossref_reply :: "nat \<Rightarrow> string \<Rightarrow> fetch_reply"
  kgx3_reply :: "nat \<Rightarrow> js \<Rightarrow> js \<Rightarrow> fetch_reply"
  clock :: "nat \<Rightarrow> string"
  write_ok :: "nat \<Rightarrow> bool"

record world =
  cache :: CacheData
  net :: "net_call list"
  disk :: "CacheData option"
  ticks :: nat

definition initial_cache :: "env \<Rightarrow> CacheData" where
  "initial_cache ev = \<lparr>entries = [], creditsUsed = 0, lastUpdated = clock ev 0\<rparr>"

definition initial_world :: "env \<Rightarrow> world" where
  "initial_world ev = \<lparr>cache = initial_cache ev, net = [], disk = None, ticks = 1\<rparr>"

section \<open>Cache store\<close>

text \<open>\<^verbatim>\<open>saveCache\<close>: stamps the time, writes the file; a failed write is logged and swallowed.\<close>

definition saveCache :: "env \<Rightarrow> world \<Rightarrow> world" where
  "saveCache ev w =
     (let c = (cache w)\<lparr>lastUpdated := clock ev (ticks w)\<rparr>
      in w\<lparr>cache := c,
            disk := (if write_ok ev (ticks w) then Some c else disk w),
            ticks := ticks w + 1\<rparr>)"

record CacheStats =
  totalEntries :: nat
  stats_creditsUsed :: real
  creditLimit :: real

definition getCacheStats :: "env \<Rightarrow> world \<Rightarrow> CacheStats" where
  "getCacheStats ev w =
     \<lparr>totalEntries = length (entries (cache w)),
      stats_creditsUsed = creditsUsed (cache w),
      creditLimit = CREDIT_LIMIT ev\<rparr>"

section \<open>Classification client\<close>

text \<open>\<^verbatim>\<open>!KGX3_API_KEY\<close>: no key, or the empty string.\<close>

definition key_missing :: "env \<Rightarrow> bool" where
  "key_missing ev = (case KGX3_API_KEY ev of None \<Rightarrow> True | Some k \<Rightarrow> k = [])"

text \<open>
  The two guards come first and throw before the \<^verbatim>\<open>try\<close>. Inside it, the first log
  line converts the title to a string, which throws for a title without a string
  conversion, before any request. The request is recorded in \<open>net\<close>. After a success
  status the body is read, the counter is incremented and the cache saved; only then
  does the second log line read \<^verbatim>\<open>result.classification\<close> and convert it, which
  throws when the body is \<^verbatim>\<open>null\<close> or the label has no string conversion. The
  \<^verbatim>\<open>catch\<close> logs and rethrows.
\<close>

definition classifyPaper :: "env \<Rightarrow> js \<Rightarrow> js \<Rightarrow> world \<Rightarrow> (error + Classification) \<times> world" where
  "classifyPaper ev ttl pdf w =
     (if creditsUsed (cache w) \<ge> CREDIT_LIMIT ev then (Inl CreditLimitReached, w)
      else if key_missing ev then (Inl ApiKeyNotConfigured, w)
      else
        (case to_string ttl of
           Inl e \<Rightarrow> (Inl e, w)
         | Inr shown \<Rightarrow>
             (let pdf_url = js_or pdf (Str []);
                  w1 = w\<lparr>net := net w @ [Kgx3Post ttl pdf_url], ticks := ticks w + 1\<rparr>
              in (case kgx3_reply ev (ticks w) ttl pdf_url of
                    Rejected \<Rightarrow> (Inl FetchRejected, w1)
                  | Response ok status body \<Rightarrow>
                      if \<not> ok then (Inl (Kgx3Status status), w1)
                      else
                        (case body of
                           None \<Rightarrow> (Inl BodySyntaxError, w1)
                         | Some result \<Rightarrow>
                             (let w2 = saveCache ev
                                         (w1\<lparr>cache := (cache w1)\<lparr>creditsUsed := creditsUsed (cache w1) + 1\<rparr>\<rparr>)
                              in (case get result ''classification'' of
                                    Inl e \<Rightarrow> (Inl e, w2)
                                  | Inr c \<Rightarrow>
                                      (case to_string c of
                                         Inl e \<Rightarrow> (Inl e, w2)
                                       | Inr label \<Rightarrow>
                                           (case get result ''confidence'' of
                                              Inl e \<Rightarrow> (Inl e, w2)
                                            | Inr cf \<Rightarrow>
                                                (Inr \<lparr>class_label = c, confidence = cf\<rparr>, w2))))))))))"

section \<open>Metadata client\<close>

definition is_space :: "char \<Rightarrow> bool" where
  "is_space c = (c \<in> set [CHR '' '', CHR 0x09, CHR 0x0A, CHR 0x0B, CHR 0x0C, CHR 0x0D])"

definition trim :: "string \<Rightarrow> string" where
  "trim s = rev (dropWhile is_space (rev (dropWhile is_space s)))"

text \<open>\<^verbatim>\<open>`${author.given || ''} ${author.family || ''}`.trim()\<close>\<close>

definition author_name :: "js \<Rightarrow> error + js" where
  "author_name author =
     (case get author ''given'' of
        Inl e \<Rightarrow> Inl e
      | Inr g \<Rightarrow>
          (case get author ''family'' of
             Inl e \<Rightarrow> Inl e
           | Inr f \<Rightarrow>
               (case to_string (js_or g (Str [])) of
                  Inl e \<Rightarrow> Inl e
                | Inr gs \<Rightarrow>
                    (case to_string (js_or f (Str [])) of
                       Inl e \<Rightarrow> Inl e
                     | Inr fs \<Rightarrow> Inr (Str (trim (gs @ '' '' @ fs)))))))"

fun map_err :: "('a \<Rightarrow> error + 'b) \<Rightarrow> 'a list \<Rightarrow> error + 'b list" where
  "map_err f [] = Inr []"
| "map_err f (x # xs) =
     (case f x of
        Inl e \<Rightarrow> Inl e
      | Inr y \<Rightarrow> (case map_err f xs of Inl e \<Rightarrow> Inl e | Inr ys \<Rightarrow> Inr (y # ys)))"

text \<open>
  \<^verbatim>\<open>work.author?.map(...) || []\<close>: nullish gives the empty list; an array is mapped;
  anything else has no callable \<^verbatim>\<open>map\<close> and the call throws.
\<close>

definition work_authors :: "js \<Rightarrow> error + js" where
  "work_authors a =
     (if nullish a then Inr (Arr [])
      else case a of
             Arr xs \<Rightarrow> (case map_err author_name xs of Inl e \<Rightarrow> Inl e | Inr ys \<Rightarrow> Inr (Arr ys))
           | _ \<Rightarrow> Inl TypeError)"

text \<open>\<^verbatim>\<open>work.link.find(link => link['content-type'] === 'application/pdf')\<close>\<close>

fun find_pdf_link :: "js list \<Rightarrow> error + js" where
  "find_pdf_link [] = Inr Undefined"
| "find_pdf_link (l # ls) =
     (case get l ''content-type'' of
        Inl e \<Rightarrow> Inl e
      | Inr ct \<Rightarrow> if ct = Str ''application/pdf'' then Inr l else find_pdf_link ls)"

definition work_pdfUrl :: "js \<Rightarrow> error + js" where
  "work_pdfUrl link =
     (case link of
        Arr ls \<Rightarrow>
          (case find_pdf_link ls of
             Inl e \<Rightarrow> Inl e
           | Inr pdfLink \<Rightarrow> if truthy pdfLink then get pdfLink ''URL'' else Inr Undefined)
      | _ \<Rightarrow> Inr Undefined)"

text \<open>
  \<^verbatim>\<open>Array.isArray(work.title) ? work.title[0] : work.title || ''\<close>: the conditional
  binds weaker than \<^verbatim>\<open>||\<close>, so the default applies to the second branch only.
\<close>

definition work_title :: "js \<Rightarrow> js" where
  "work_title t = (if isArray t then index0 t else js_or t (Str []))"

definition work_journal :: "js \<Rightarrow> js" where
  "work_journal ct = js_or (index0_opt ct) (Str [])"

definition work_year :: "js \<Rightarrow> js" where
  "work_year published =
     js_or (index0_opt (index0_opt (get_opt published ''date-parts''))) Undefined"

text \<open>
  What the body of the \<^verbatim>\<open>try\<close> does with the parsed response body. The log line
  before the \<^verbatim>\<open>return\<close> converts the title to a string, which throws for a title
  without a string conversion.
\<close>

definition parse_work :: "js \<Rightarrow> error + DoiMetadata" where
  "parse_work data =
     (case get data ''message'' of
        Inl e \<Rightarrow> Inl e
      | Inr work \<Rightarrow>
          if \<not> truthy work then Inl NoWorkData
          else
            (case work_authors (get_opt work ''author'') of
               Inl e \<Rightarrow> Inl e
             | Inr au \<Rightarrow>
                 (case work_pdfUrl (get_opt work ''link'') of
                    Inl e \<Rightarrow> Inl e
                  | Inr pu \<Rightarrow>
                      (case to_string (work_title (get_opt work ''title'')) of
                         Inl e \<Rightarrow> Inl e
                       | Inr shown \<Rightarrow>
                           Inr \<lparr>title = work_title (get_opt work ''title''),
                                pdfUrl = pu,
                                authors = au,
                                journal = work_journal (get_opt work ''container-title''),
                                year = work_year (get_opt work ''published'')\<rparr>))))"

text \<open>
  The URL is built first, outside the \<^verbatim>\<open>try\<close>: \<^verbatim>\<open>encodeURIComponent(doi)\<close> throws
  before any request when the DOI holds a lone surrogate.
\<close>

definition fetchCrossrefMetadata :: "env \<Rightarrow> string \<Rightarrow> world \<Rightarrow> (error + DoiMetadata) \<times> world" where
  "fetchCrossrefMetadata ev d w =
     (if has_lone_surrogate d then (Inl URIError, w)
      else
        (let w1 = w\<lparr>net := net w @ [CrossrefGet d], ticks := ticks w + 1\<rparr>
         in (case crossref_reply ev (ticks w) d of
               Rejected \<Rightarrow> (Inl FetchRejected, w1)
             | Response ok status body \<Rightarrow>
                 if \<not> ok then (Inl (CrossrefStatus status), w1)
                 else
                   (case body of
                      None \<Rightarrow> (Inl BodySyntaxError, w1)
                    | Some data \<Rightarrow> (parse_work data, w1)))))"

section \<open>Pipeline orchestrator\<close>

text \<open>Lines 251 to 264: the cached metadata, or a fetch followed by caching and saving.\<close>

definition resolveMetadata :: "env \<Rightarrow> string \<Rightarrow> world \<Rightarrow> (error + DoiMetadata) \<times> world" where
  "resolveMetadata ev d w =
     (case map_of (entries (cache w)) d of
        Some entry \<Rightarrow> (Inr (metadata entry), w)
      | None \<Rightarrow>
          (case fetchCrossrefMetadata ev d w of
             (Inl e, w1) \<Rightarrow> (Inl e, w1)
           | (Inr m, w1) \<Rightarrow>
               let entry = \<lparr>doi = d, metadata = m, classification = None,
                            processedAt = clock ev (ticks w1)\<rparr>;
                   w2 = w1\<lparr>cache := (cache w1)\<lparr>entries := AList.update d entry (entries (cache w1))\<rparr>,
                           ticks := ticks w1 + 1\<rparr>
               in (Inr m, saveCache ev w2)))"

text \<open>\<^verbatim>\<open>cache.entries[doi].classification = classification\<close>\<close>

definition attachClassification :: "string \<Rightarrow> Classification \<Rightarrow> world \<Rightarrow> (error + unit) \<times> world" where
  "attachClassification d c w =
     (case map_of (entries (cache w)) d of
        None \<Rightarrow> (Inl TypeError, w)
      | Some entry \<Rightarrow>
          (Inr (),
           w\<lparr>cache := (cache w)\<lparr>entries :=
                AList.update d (entry\<lparr>classification := Some c\<rparr>) (entries (cache w))\<rparr>\<rparr>))"

text \<open>
  The body of the \<^verbatim>\<open>try\<close> block of \<^verbatim>\<open>processDoi\<close>. On the memoized path the
  log line converts the stored label to a string before the mapper is called. After a
  classification the entry is updated and the cache saved before the mapper runs.
\<close>

definition processDoi_try :: "env \<Rightarrow> string \<Rightarrow> world \<Rightarrow> (error + js) \<times> world" where
  "processDoi_try ev d w =
     (case Option.bind (map_of (entries (cache w)) d) classification of
        Some c \<Rightarrow>
          (case to_string (class_label c) of
             Inl e \<Rightarrow> (Inl e, w)
           | Inr shown \<Rightarrow> (mapClassificationToBadge (class_label c), w))
      | None \<Rightarrow>
          (case resolveMetadata ev d w of
             (Inl e, w1) \<Rightarrow> (Inl e, w1)
           | (Inr m, w1) \<Rightarrow>
               if \<not> truthy (title m) then (Inr Null, w1)
               else if \<not> truthy (pdfUrl m) then (Inr Null, w1)
               else
                 (case classifyPaper ev (title m) (pdfUrl m) w1 of
                    (Inl e, w2) \<Rightarrow> (Inl e, w2)
                  | (Inr c, w2) \<Rightarrow>
                      (case attachClassification d c w2 of
                         (Inl e, w3) \<Rightarrow> (Inl e, w3)
                       | (Inr u, w3) \<Rightarrow>
                           (mapClassificationToBadge (class_label c), saveCache ev w3)))))"

text \<open>\<^verbatim>\<open>processDoi\<close>: the \<^verbatim>\<open>catch\<close> logs the error and returns \<^verbatim>\<open>null\<close>.\<close>

definition processDoi :: "env \<Rightarrow> string \<Rightarrow> world \<Rightarrow> (error + js) \<times> world" where
  "processDoi ev d w =
     (case processDoi_try ev d w of
        (Inl e, w1) \<Rightarrow> (Inr Null, w1)
      | (Inr v, w1) \<Rightarrow> (Inr v, w1))"

section \<open>DOI extractor\<close>

text \<open>
  The two regular expressions are kept as syntax trees and run by a backtracking
  matcher. \<open>matches r s\<close> lists, in the order in which the engine tries them, the ways
  in which \<open>r\<close> matches a prefix of \<open>s\<close>: the text captured by the group, if any, and
  the rest of the input. A greedy quantifier lists its longest match first.
  \<open>exec\<close> is \<^verbatim>\<open>RegExp.prototype.exec\<close> on a fresh expression: the first
  alternative at the leftmost position that has one. Both expressions carry the flag
  \<^verbatim>\<open>i\<close>, so literals and \<^verbatim>\<open>A-Z\<close> match both cases. Characters are bytes; the
  characters the expressions accept are all ASCII.
\<close>

definition is_upper :: "char \<Rightarrow> bool" where
  "is_upper c = (65 \<le> (of_char c :: nat) \<and> (of_char c :: nat) \<le> 90)"

definition is_lower :: "char \<Rightarrow> bool" where
  "is_lower c = (97 \<le> (of_char c :: nat) \<and> (of_char c :: nat) \<le> 122)"

definition is_digit :: "char \<Rightarrow> bool" where
  "is_digit c = (48 \<le> (of_char c :: nat) \<and> (of_char c :: nat) \<le> 57)"

definition lower_char :: "char \<Rightarrow> char" where
  "lower_char c = (if is_upper c then char_of ((of_char c :: nat) + 32) else c)"

definition toLowerCase :: "string \<Rightarrow> string" where
  "toLowerCase s = map lower_char s"

datatype cls = Digit | DoiChar

fun cls_ok :: "cls \<Rightarrow> char \<Rightarrow> bool" where
  "cls_ok Digit c = is_digit c"
| "cls_ok DoiChar c = (c \<in> set ''-._;()/:'' \<or> is_upper c \<or> is_lower c \<or> is_digit c)"

text \<open>
  \<open>Lits l\<close> is a run of literal characters, \<open>Seq a b\<close> is \<open>a\<close> followed by \<open>b\<close>,
  \<open>Opt r\<close> is \<^verbatim>\<open>(?:r)?\<close>, \<open>Rep lo hi c\<close> is a character class repeated at least
  \<open>lo\<close> and at most \<open>hi\<close> times (\<^verbatim>\<open>+\<close> is \<open>Rep 1 None\<close>), and \<open>Group r\<close> is the
  capturing group. The quantifiers are greedy.
\<close>

datatype re =
    Lits string
  | Seq re re
  | Opt re
  | Rep nat "nat option" cls
  | Group re

definition lits_ok :: "string \<Rightarrow> string \<Rightarrow> bool" where
  "lits_ok l s = (length l \<le> length s \<and> toLowerCase (take (length l) s) = toLowerCase l)"

fun matches :: "re \<Rightarrow> string \<Rightarrow> (string option \<times> string) list" where
  "matches (Lits l) s = (if lits_ok l s then [(None, drop (length l) s)] else [])"
| "matches (Seq a b) s =
     concat (map (\<lambda>(c1, s1). map (\<lambda>(c2, s2). (case c2 of None \<Rightarrow> c1 | Some g \<Rightarrow> Some g, s2))
                                  (matches b s1))
                 (matches a s))"
| "matches (Opt r) s = matches r s @ [(None, s)]"
| "matches (Rep lo hi c) s =
     (let n = length (takeWhile (cls_ok c) s);
          top = (case hi of None \<Rightarrow> n | Some h \<Rightarrow> min h n)
      in map (\<lambda>k. (None, drop k s)) (rev [lo ..< Suc top]))"
| "matches (Group r) s =
     map (\<lambda>(c, s'). (Some (take (length s - length s') s), s')) (matches r s)"

fun exec :: "re \<Rightarrow> string \<Rightarrow> (string option) option" where
  "exec r s =
     (case matches r s of
        (g, rest) # alternatives \<Rightarrow> Some g
      | [] \<Rightarrow> (case s of [] \<Rightarrow> None | c # t \<Rightarrow> exec r t))"

text \<open>
  \<^verbatim>\<open>10\.\d{4,9}\/[-._;()\/:A-Z0-9]+\<close>, the body of the group of both expressions;
  \<open>doiRegex\<close> puts \<^verbatim>\<open>(?:https?:\/\/)?(?:dx\.)?doi\.org\/?\<close> before the group.
\<close>

definition directDoiBody :: re where
  "directDoiBody =
     Seq (Lits ''10.'') (Seq (Rep 4 (Some 9) Digit) (Seq (Lits ''/'') (Rep 1 None DoiChar)))"

definition doiRegex :: re where
  "doiRegex =
     Seq (Opt (Seq (Lits ''http'') (Seq (Opt (Lits ''s'')) (Lits ''://''))))
       (Seq (Opt (Lits ''dx.''))
         (Seq (Lits ''doi.org'')
           (Seq (Opt (Lits ''/'')) (Group directDoiBody))))"

definition directDoiRegex :: re where
  "directDoiRegex = Group directDoiBody"

text \<open>\<^verbatim>\<open>match[1].toLowerCase()\<close>, which throws when the group did not take part.\<close>

definition group1_lower :: "string option \<Rightarrow> error + string option" where
  "group1_lower g = (case g of None \<Rightarrow> Inl TypeError | Some m \<Rightarrow> Inr (Some (toLowerCase m)))"

definition extractDoi :: "string \<Rightarrow> error + string option" where
  "extractDoi text =
     (case exec doiRegex text of
        Some g \<Rightarrow> group1_lower g
      | None \<Rightarrow>
          (case exec directDoiRegex text of
             Some g \<Rightarrow> group1_lower g
           | None \<Rightarrow> Inr None))"

section \<open>Sequences of operations\<close>

text \<open>The exported operations that a caller may run one after the other, with their arguments.\<close>

datatype op = OpProcessDoi string | OpClassifyPaper js js | OpSaveCache | OpGetCacheStats

fun step :: "env \<Rightarrow> op \<Rightarrow> world \<Rightarrow> world" where
  "step ev (OpProcessDoi d) w = snd (processDoi ev d w)"
| "step ev (OpClassifyPaper ttl pdf) w = snd (classifyPaper ev ttl pdf w)"
| "step ev OpSaveCache w = saveCache ev w"
| "step ev OpGetCacheStats w = w"


text \<open>A batch: \<^verbatim>\<open>processDoi\<close> on each DOI of a list in turn.\<close>

definition processAll :: "env \<Rightarrow> string list \<Rightarrow> world \<Rightarrow> world" where
  "processAll ev ds w = foldl (\<lambda>s d. snd (processDoi ev d s)) w ds"

text \<open>The states that sequences of operations reach from the initial cache.\<close>

inductive reachable :: "env \<Rightarrow> world \<Rightarrow> bool" for ev where
  reachable_init: "reachable ev (initial_world ev)"
| reachable_step: "reachable ev w \<Longrightarrow> reachable ev (step ev x w)"

section \<open>Notions used in the statements\<close>

text \<open>The keys of the entries, and the requests sent to the classification service.\<close>

definition cache_keys :: "world \<Rightarrow> string set" where
  "cache_keys w = fst ` set (entries (cache w))"

fun is_kgx3 :: "net_call \<Rightarrow> bool" where
  "is_kgx3 (Kgx3Post t p) = True"
| "is_kgx3 (CrossrefGet d) = False"

definition kgx3_calls :: "world \<Rightarrow> net_call list" where
  "kgx3_calls w = filter is_kgx3 (net w)"

text \<open>
  The cache is warm for a DOI when a call of \<^verbatim>\<open>processDoi\<close> needs nothing from the
  network: the entry carries a classification, or its metadata has no title or no PDF
  link, or the classification client would refuse at its guards.
\<close>

definition warm :: "env \<Rightarrow> world \<Rightarrow> string \<Rightarrow> bool" where
  "warm ev w d =
     (case map_of (entries (cache w)) d of
        None \<Rightarrow> False
      | Some e \<Rightarrow>
          classification e \<noteq> None \<or> \<not> truthy (title (metadata e)) \<or> \<not> truthy (pdfUrl (metadata e))
          \<or> CREDIT_LIMIT ev \<le> creditsUsed (cache w) \<or> key_missing ev)"

text \<open>
  The badge of a label, \<^verbatim>\<open>null\<close> when the mapper throws, and the badge of the
  classification stored for a DOI, \<^verbatim>\<open>null\<close> when there is none.
\<close>

definition badge_or_null :: "js \<Rightarrow> js" where
  "badge_or_null label = (case mapClassificationToBadge label of Inl e \<Rightarrow> Null | Inr b \<Rightarrow> b)"

definition cached_badge :: "world \<Rightarrow> string \<Rightarrow> js" where
  "cached_badge w d =
     (case Option.bind (map_of (entries (cache w)) d) classification of
        Some c \<Rightarrow> badge_or_null (class_label c)
      | None \<Rightarrow> Null)"

text \<open>
  An entry is classified only after its metadata showed a title and a PDF link; every
  state that the operations reach from the initial cache satisfies this.
\<close>

definition entry_ok :: "CacheEntry \<Rightarrow> bool" where
  "entry_ok e = (classification e = None \<or> (truthy (title (metadata e)) \<and> truthy (pdfUrl (metadata e))))"

definition cache_ok :: "world \<Rightarrow> bool" where
  "cache_ok w = list_all (\<lambda>(k, e). entry_ok e) (entries (cache w))"

section \<open>Sample inputs\<close>

definition sample_env :: "real \<Rightarrow> string option \<Rightarrow> fetch_reply \<Rightarrow> fetch_reply \<Rightarrow> env" where
  "sample_env limit key registry service =
     \<lparr>CREDIT_LIMIT = limit, KGX3_API_KEY = key,
      crossref_reply = (\<lambda>n d. registry), kgx3_reply = (\<lambda>n t p. service),
      clock = (\<lambda>n. ''2024-01-01T00:00:00.000Z''), write_ok = (\<lambda>n. True)\<rparr>"

definition paper_body :: js where
  "paper_body =
     Obj [(''message'',
           Obj [(''title'', Arr [Str ''A Paper'']),
                (''link'', Arr [Obj [(''content-type'', Str ''application/pdf''),
                                     (''URL'', Str ''https://example.org/a.pdf'')]])])]"

definition paper_meta :: DoiMetadata where
  "paper_meta =
     \<lparr>title = Str ''A Paper'', pdfUrl = Str ''https://example.org/a.pdf'', authors = Arr [],
      journal = Str [], year = Undefined\<rparr>"

definition nopdf_body :: js where
  "nopdf_body = Obj [(''message'', Obj [(''title'', Arr [Str ''A Paper''])])]"

definition untitled_body :: js where
  "untitled_body = Obj [(''message'', Obj [(''title'', Arr [])])]"

definition label_body :: js where
  "label_body = Obj [(''classification'', Str ''Normal Science''), (''confidence'', Num 1)]"

definition ev_offline :: env where
  "ev_offline = sample_env 2 (Some ''key'') Rejected Rejected"

definition ev_nokey :: env where
  "ev_nokey = sample_env 2 None Rejected Rejected"

definition ev_null_body :: env where
  "ev_null_body = sample_env 2 (Some ''key'') Rejected (Response True 200 (Some Null))"

definition ev_untitled :: env where
  "ev_untitled = sample_env 2 (Some ''key'') (Response True 200 (Some untitled_body)) Rejected"

definition ev_nopdf :: env where
  "ev_nopdf = sample_env 2 (Some ''key'') (Response True 200 (Some nopdf_body)) Rejected"

definition ev_paper :: env where
  "ev_paper =
     sample_env 2 (Some ''key'') (Response True 200 (Some paper_body))
       (Response True 200 (Some label_body))"

text \<open>A classification service that answers 500 at first and recovers later.\<close>

definition ev_flaky :: env where
  "ev_flaky =
     (sample_env 2 (Some ''key'') (Response True 200 (Some paper_body)) Rejected)
       \<lparr>kgx3_reply := (\<lambda>n t p. if n < 5 then Response False 500 None
                               else Response True 200 (Some label_body))\<rparr>"

text \<open>A limit that is not a whole number, and a service that always classifies.\<close>

definition ev_half :: env where
  "ev_half = sample_env (3 / 2) (Some ''key'') Rejected (Response True 200 (Some label_body))"

text \<open>A registry that knows the paper and no API key for the classification service.\<close>

definition ev_paper_nokey :: env where
  "ev_paper_nokey = sample_env 2 None (Response True 200 (Some paper_body)) Rejected"

definition w_spent :: world where
  "w_spent =
     \<lparr>cache = \<lparr>entries = [], creditsUsed = 2, lastUpdated = []\<rparr>,
      net = [], disk = None, ticks = 0\<rparr>"

section \<open>The patterns, declaratively\<close>

text \<open>
  What the two patterns accept, stated without the matcher. A DOI is \<^verbatim>\<open>10.\<close>, four
  to nine digits, a slash and a non-empty suffix of characters of the class. A resolver
  prefix is an optional \<^verbatim>\<open>http://\<close> or \<^verbatim>\<open>https://\<close>, an optional \<^verbatim>\<open>dx.\<close>, the
  host \<^verbatim>\<open>doi.org\<close> and an optional slash, in either case of the letters.
\<close>

definition doi_shaped :: "string \<Rightarrow> bool" where
  "doi_shaped d =
     (\<exists>ds suf. d = ''10.'' @ ds @ ''/'' @ suf \<and> 4 \<le> length ds \<and> length ds \<le> 9 \<and>
        (\<forall>c \<in> set ds. is_digit c) \<and> suf \<noteq> [] \<and> (\<forall>c \<in> set suf. cls_ok DoiChar c))"

definition resolver_prefix :: "string \<Rightarrow> bool" where
  "resolver_prefix u =
     (\<exists>scheme dx host slash. u = scheme @ dx @ host @ slash \<and>
        (scheme = [] \<or> toLowerCase scheme = ''http://'' \<or> toLowerCase scheme = ''https://'') \<and>
        (dx = [] \<or> toLowerCase dx = ''dx.'') \<and>
        toLowerCase host = ''doi.org'' \<and>
        (slash = [] \<or> slash = ''/''))"

text \<open>
  The form in which the specification writes a resolver URL,
  \<^verbatim>\<open>[https://][dx.]doi.org/10.NNNN/suffix\<close>: the scheme is \<^verbatim>\<open>https\<close> and the slash
  after the host is there. It is narrower than what the expression accepts.
\<close>

definition spec_resolver_prefix :: "string \<Rightarrow> bool" where
  "spec_resolver_prefix u =
     (u \<in> set [''doi.org/'', ''dx.doi.org/'', ''https://doi.org/'', ''https://dx.doi.org/''])"

definition has_spec_url_doi :: "string \<Rightarrow> bool" where
  "has_spec_url_doi inp =
     (\<exists>pre u d post. inp = pre @ u @ d @ post \<and> spec_resolver_prefix u \<and> doi_shaped d)"

text \<open>The text after a match does not continue the suffix.\<close>

definition ends_here :: "string \<Rightarrow> bool" where
  "ends_here post = (case post of [] \<Rightarrow> True | x # rest \<Rightarrow> \<not> cls_ok DoiChar x)"

definition has_url_doi :: "string \<Rightarrow> bool" where
  "has_url_doi text =
     (\<exists>pre u d post. text = pre @ u @ d @ post \<and> resolver_prefix u \<and> doi_shaped d)"

definition has_bare_doi :: "string \<Rightarrow> bool" where
  "has_bare_doi text = (\<exists>pre d post. text = pre @ d @ post \<and> doi_shaped d)"

definition url_doi_at :: "string \<Rightarrow> nat \<Rightarrow> string \<Rightarrow> bool" where
  "url_doi_at text n d =
     (\<exists>pre u post. text = pre @ u @ d @ post \<and> length pre = n \<and> resolver_prefix u \<and>
        doi_shaped d \<and> ends_here post)"

definition bare_doi_at :: "string \<Rightarrow> nat \<Rightarrow> string \<Rightarrow> bool" where
  "bare_doi_at text n d =
     (\<exists>pre post. text = pre @ d @ post \<and> length pre = n \<and> doi_shaped d \<and> ends_here post)"

text \<open>
  The language of an expression, with the capture: the pairs of a matched string and
  the text of the group. It is the reference the matcher is compared with.
\<close>

fun langc :: "re \<Rightarrow> (string \<times> string option) set" where
  "langc (Lits l) = {(u, None) | u. toLowerCase u = toLowerCase l}"
| "langc (Seq a b) =
     {(u @ v, case c2 of None \<Rightarrow> c1 | Some g \<Rightarrow> Some g) | u v c1 c2. (u, c1) \<in> langc a \<and> (v, c2) \<in> langc b}"
| "langc (Opt r) = insert ([], None) (langc r)"
| "langc (Rep lo hi c) =
     {(u, None) | u. (\<forall>x \<in> set u. cls_ok c x) \<and> lo \<le> length u \<and>
                     (case hi of None \<Rightarrow> True | Some h \<Rightarrow> length u \<le> h)}"
| "langc (Group r) = {(u, Some u) | u c. (u, c) \<in> langc r}"

definition rep_top :: "nat option \<Rightarrow> cls \<Rightarrow> string \<Rightarrow> nat" where
  "rep_top hi c s =
     (case hi of None \<Rightarrow> length (takeWhile (cls_ok c) s)
               | Some h \<Rightarrow> min h (length (takeWhile (cls_ok c) s)))"

definition schemeRegex :: re where
  "schemeRegex = Seq (Lits ''http'') (Seq (Opt (Lits ''s'')) (Lits ''://''))"

text \<open>The first alternative of an expression is its longest: it stops where the suffix stops.\<close>

definition stops :: "re \<Rightarrow> bool" where
  "stops r = (\<forall>s. matches r s \<noteq> [] \<longrightarrow> ends_here (snd (hd (matches r s))))"

section \<open>Auxiliary facts\<close>

lemma get_Inl: "get v k = Inl e \<Longrightarrow> e = TypeError"
  by (cases v) (auto split: option.splits if_splits)

lemma to_string_Inl: "to_string v = Inl e \<Longrightarrow> e = TypeError"
  by (auto simp: to_string_def split: if_splits)

lemma to_string_Str [simp]: "to_string (Str s) = Inr s"
  by (simp add: to_string_def)

lemma mapClassificationToBadge_Inl: "mapClassificationToBadge v = Inl e \<Longrightarrow> e = TypeError"
  by (auto simp: mapClassificationToBadge_def mapping_def split: sum.splits option.splits if_splits
      dest: to_string_Inl)

lemma mapClassificationToBadge_to_string:
  "to_string v = Inl e \<Longrightarrow> mapClassificationToBadge v = Inl e"
  by (simp add: mapClassificationToBadge_def)

lemma badge_or_null_Inr [simp]: "mapClassificationToBadge v = Inr b \<Longrightarrow> badge_or_null v = b"
  by (simp add: badge_or_null_def)

lemma badge_or_null_Inl [simp]: "mapClassificationToBadge v = Inl e \<Longrightarrow> badge_or_null v = Null"
  by (simp add: badge_or_null_def)

lemma badge_or_null_to_string [simp]: "to_string v = Inl e \<Longrightarrow> badge_or_null v = Null"
  by (simp add: badge_or_null_def mapClassificationToBadge_def)

lemma saveCache_entries [simp]: "entries (cache (saveCache ev w)) = entries (cache w)"
  by (simp add: saveCache_def Let_def)

lemma saveCache_creditsUsed [simp]: "creditsUsed (cache (saveCache ev w)) = creditsUsed (cache w)"
  by (simp add: saveCache_def Let_def)

lemma saveCache_net [simp]: "net (saveCache ev w) = net w"
  by (simp add: saveCache_def Let_def)

lemma classifyPaper_entries:
  "classifyPaper ev ttl pdf w = (r, w') \<Longrightarrow> entries (cache w') = entries (cache w)"
  by (auto simp: classifyPaper_def Let_def split: if_splits fetch_reply.splits option.splits sum.splits)


lemma fetchCrossrefMetadata_cache:
  "fetchCrossrefMetadata ev d w = (r, w') \<Longrightarrow>
     cache w' = cache w \<and>
     net w' = (if has_lone_surrogate d then net w else net w @ [CrossrefGet d])"
  by (auto simp: fetchCrossrefMetadata_def Let_def split: if_splits fetch_reply.splits option.splits)

lemma resolveMetadata_credits:
  "resolveMetadata ev d w = (r, w') \<Longrightarrow> creditsUsed (cache w') = creditsUsed (cache w)"
  by (auto simp: resolveMetadata_def Let_def dest!: fetchCrossrefMetadata_cache
      split: option.splits prod.splits sum.splits)









lemma resolveMetadata_entry:
  "resolveMetadata ev d w = (Inr m, w') \<Longrightarrow>
     (\<exists>e. map_of (entries (cache w')) d = Some e \<and> metadata e = m \<and>
          classification e = Option.bind (map_of (entries (cache w)) d) classification)"
  by (auto simp: resolveMetadata_def Let_def update_conv' dest!: fetchCrossrefMetadata_cache
      split: option.splits prod.splits sum.splits)

lemma resolveMetadata_Inl:
  "resolveMetadata ev d w = (Inl e, w') \<Longrightarrow> map_of (entries (cache w')) d = None"
  by (auto simp: resolveMetadata_def Let_def update_conv' dest!: fetchCrossrefMetadata_cache
      split: option.splits prod.splits sum.splits)

lemma attachClassification_Inl:
  "attachClassification d c w = (Inl e, w') \<Longrightarrow> w' = w \<and> map_of (entries (cache w)) d = None"
  by (auto simp: attachClassification_def split: option.splits)

lemma attachClassification_Inr:
  "attachClassification d c w = (Inr u, w') \<Longrightarrow>
     Option.bind (map_of (entries (cache w')) d) classification = Some c"
  by (auto simp: attachClassification_def update_conv' split: option.splits)

lemma processDoi_try_cached:
  assumes "Option.bind (map_of (entries (cache w)) d) classification = Some c"
  shows "processDoi_try ev d w =
           (case to_string (class_label c) of
              Inl e \<Rightarrow> (Inl e, w)
            | Inr shown \<Rightarrow> (mapClassificationToBadge (class_label c), w))"
  using assms by (simp add: processDoi_try_def)

lemma processDoi_try_cached_state:
  "Option.bind (map_of (entries (cache w)) d) classification = Some c \<Longrightarrow>
     snd (processDoi_try ev d w) = w"
  by (simp add: processDoi_try_cached split: sum.splits)

lemma processDoi_cached:
  assumes "Option.bind (map_of (entries (cache w)) d) classification = Some c"
  shows "processDoi ev d w = (Inr (badge_or_null (class_label c)), w)"
proof (cases "to_string (class_label c)")
  case (Inl e)
  then show ?thesis using assms by (simp add: processDoi_def processDoi_try_cached)
next
  case (Inr shown)
  then show ?thesis using assms
    by (cases "mapClassificationToBadge (class_label c)")
       (simp_all add: processDoi_def processDoi_try_cached)
qed

lemma processDoi_try_uncached:
  assumes "Option.bind (map_of (entries (cache w)) d) classification = None"
  shows "processDoi_try ev d w =
          (case resolveMetadata ev d w of
             (Inl e, w1) \<Rightarrow> (Inl e, w1)
           | (Inr m, w1) \<Rightarrow>
               if \<not> truthy (title m) then (Inr Null, w1)
               else if \<not> truthy (pdfUrl m) then (Inr Null, w1)
               else
                 (case classifyPaper ev (title m) (pdfUrl m) w1 of
                    (Inl e, w2) \<Rightarrow> (Inl e, w2)
                  | (Inr c, w2) \<Rightarrow>
                      (case attachClassification d c w2 of
                         (Inl e, w3) \<Rightarrow> (Inl e, w3)
                       | (Inr u, w3) \<Rightarrow>
                           (mapClassificationToBadge (class_label c), saveCache ev w3))))"
  using assms by (simp add: processDoi_try_def)

lemma processDoi_try_result:
  assumes "processDoi_try ev d w = (r, w')"
  shows "case r of Inl e \<Rightarrow> cached_badge w' d = Null | Inr v \<Rightarrow> v = cached_badge w' d"
proof (cases "Option.bind (map_of (entries (cache w)) d) classification")
  case (Some c)
  then show ?thesis using assms
    by (auto simp: processDoi_try_cached cached_badge_def split: sum.splits)
next
  case None
  obtain r1 w1 where m: "resolveMetadata ev d w = (r1, w1)" by (cases "resolveMetadata ev d w")
  show ?thesis
  proof (cases r1)
    case (Inl e)
    then show ?thesis using assms None m resolveMetadata_Inl [of ev d w e w1]
      by (auto simp: processDoi_try_uncached cached_badge_def)
  next
    case (Inr md)
    from resolveMetadata_entry [of ev d w md w1] m Inr None
    obtain e1 where e1: "map_of (entries (cache w1)) d = Some e1" "classification e1 = None"
      by auto
    then have b1: "cached_badge w1 d = Null" by (simp add: cached_badge_def)
    obtain r2 w2 where c: "classifyPaper ev (title md) (pdfUrl md) w1 = (r2, w2)"
      by (cases "classifyPaper ev (title md) (pdfUrl md) w1")
    have b2: "cached_badge w2 d = Null"
      using b1 classifyPaper_entries [OF c] by (simp add: cached_badge_def)
    show ?thesis
    proof (cases "truthy (title md) \<and> truthy (pdfUrl md)")
      case False
      then show ?thesis using assms None m Inr b1
        by (auto simp: processDoi_try_uncached split: if_splits)
    next
      case True
      show ?thesis
      proof (cases r2)
        case (Inl e)
        then show ?thesis using assms None m \<open>r1 = Inr md\<close> c True b2
          by (auto simp: processDoi_try_uncached)
      next
        case (Inr cl)
        obtain r3 w3 where a: "attachClassification d cl w2 = (r3, w3)"
          by (cases "attachClassification d cl w2")
        show ?thesis
        proof (cases r3)
          case (Inl e)
          then have "w3 = w2" using a attachClassification_Inl by blast
          then show ?thesis using assms None m \<open>r1 = Inr md\<close> c \<open>r2 = Inr cl\<close> a Inl True b2
            by (auto simp: processDoi_try_uncached)
        next
          case (Inr u)
          then have "Option.bind (map_of (entries (cache w3)) d) classification = Some cl"
            using a attachClassification_Inr by blast
          then have cb: "cached_badge (saveCache ev w3) d = badge_or_null (class_label cl)"
            by (simp add: cached_badge_def)
          have "r = mapClassificationToBadge (class_label cl)" "w' = saveCache ev w3"
            using assms None m \<open>r1 = Inr md\<close> c \<open>r2 = Inr cl\<close> a Inr True
            by (simp_all add: processDoi_try_uncached)
          then show ?thesis using cb by (simp add: badge_or_null_def split: sum.splits)
        qed
      qed
    qed
  qed
qed

lemma processDoi_result:
  "processDoi ev d w = (r, w') \<Longrightarrow> r = Inr (cached_badge w' d)"
  unfolding processDoi_def
  by (auto split: prod.splits sum.splits dest!: processDoi_try_result)

lemma resolveMetadata_cached:
  "map_of (entries (cache w)) d = Some e \<Longrightarrow> resolveMetadata ev d w = (Inr (metadata e), w)"
  by (simp add: resolveMetadata_def)

lemma classifyPaper_guard:
  "CREDIT_LIMIT ev \<le> creditsUsed (cache w) \<or> key_missing ev \<Longrightarrow>
     \<exists>e. classifyPaper ev ttl pdf w = (Inl e, w)"
  by (auto simp: classifyPaper_def)

lemma processDoi_warm:
  assumes "warm ev w d"
  shows "processDoi ev d w = (Inr (cached_badge w d), w)"
proof -
  from assms obtain e where e: "map_of (entries (cache w)) d = Some e"
    and c: "classification e \<noteq> None \<or> \<not> truthy (title (metadata e)) \<or>
            \<not> truthy (pdfUrl (metadata e)) \<or> CREDIT_LIMIT ev \<le> creditsUsed (cache w) \<or>
            key_missing ev"
    by (auto simp: warm_def split: option.splits)
  show ?thesis
  proof (cases "classification e")
    case (Some cl)
    then have "Option.bind (map_of (entries (cache w)) d) classification = Some cl"
      using e by simp
    then show ?thesis using processDoi_cached [of w d cl ev] by (simp add: cached_badge_def)
  next
    case None
    then have n: "Option.bind (map_of (entries (cache w)) d) classification = None"
      using e by simp
    then have b: "cached_badge w d = Null" by (simp add: cached_badge_def)
    have r: "resolveMetadata ev d w = (Inr (metadata e), w)" using e by (rule resolveMetadata_cached)
    show ?thesis
    proof (cases "truthy (title (metadata e)) \<and> truthy (pdfUrl (metadata e))")
      case False
      then show ?thesis using n r b by (auto simp: processDoi_def processDoi_try_uncached)
    next
      case True
      then have "CREDIT_LIMIT ev \<le> creditsUsed (cache w) \<or> key_missing ev" using c None by simp
      from classifyPaper_guard [OF this, of "title (metadata e)" "pdfUrl (metadata e)"]
      obtain er where "classifyPaper ev (title (metadata e)) (pdfUrl (metadata e)) w = (Inl er, w)"
        by blast
      then show ?thesis using n r b True by (simp add: processDoi_def processDoi_try_uncached)
    qed
  qed
qed

lemma processDoi_try_Inr_warm:
  assumes "processDoi_try ev d w = (Inr v, w')"
  shows "warm ev w' d"
proof (cases "Option.bind (map_of (entries (cache w)) d) classification")
  case (Some c)
  then have "w' = w" using assms processDoi_try_cached_state [of w d c ev] by simp
  moreover obtain e where "map_of (entries (cache w)) d = Some e" "classification e = Some c"
    using Some by (cases "map_of (entries (cache w)) d") auto
  ultimately show ?thesis by (simp add: warm_def)
next
  case None
  obtain r1 w1 where m: "resolveMetadata ev d w = (r1, w1)" by (cases "resolveMetadata ev d w")
  show ?thesis
  proof (cases r1)
    case (Inl e)
    then show ?thesis using assms None m by (simp add: processDoi_try_uncached)
  next
    case (Inr md)
    from resolveMetadata_entry [of ev d w md w1] m Inr
    obtain e1 where e1: "map_of (entries (cache w1)) d = Some e1" "metadata e1 = md" by auto
    show ?thesis
    proof (cases "truthy (title md) \<and> truthy (pdfUrl md)")
      case False
      then have "w' = w1" using assms None m Inr
        by (auto simp: processDoi_try_uncached split: if_splits)
      then show ?thesis using e1 False by (auto simp: warm_def)
    next
      case True
      obtain r2 w2 where c: "classifyPaper ev (title md) (pdfUrl md) w1 = (r2, w2)"
        by (cases "classifyPaper ev (title md) (pdfUrl md) w1")
      show ?thesis
      proof (cases r2)
        case (Inl e)
        then show ?thesis using assms None m \<open>r1 = Inr md\<close> c True
          by (simp add: processDoi_try_uncached)
      next
        case (Inr cl)
        obtain r3 w3 where a: "attachClassification d cl w2 = (r3, w3)"
          by (cases "attachClassification d cl w2")
        show ?thesis
        proof (cases r3)
          case (Inl e)
          then show ?thesis using assms None m \<open>r1 = Inr md\<close> c \<open>r2 = Inr cl\<close> a True
            by (simp add: processDoi_try_uncached)
        next
          case (Inr u)
          then have s: "Option.bind (map_of (entries (cache w3)) d) classification = Some cl"
            using a attachClassification_Inr by blast
          have "w' = saveCache ev w3"
            using assms None m \<open>r1 = Inr md\<close> c \<open>r2 = Inr cl\<close> a Inr True
            by (simp add: processDoi_try_uncached)
          moreover obtain e3 where "map_of (entries (cache w3)) d = Some e3" "classification e3 = Some cl"
            using s by (cases "map_of (entries (cache w3)) d") auto
          ultimately show ?thesis by (simp add: warm_def)
        qed
      qed
    qed
  qed
qed

lemma resolveMetadata_net:
  "resolveMetadata ev d w = (r, w') \<Longrightarrow>
     net w' = (if map_of (entries (cache w)) d = None \<and> \<not> has_lone_surrogate d
               then net w @ [CrossrefGet d] else net w)"
  by (auto simp: resolveMetadata_def Let_def dest!: fetchCrossrefMetadata_cache
      split: option.splits prod.splits sum.splits if_splits)

lemma cache_keys_saveCache [simp]: "cache_keys (saveCache ev w) = cache_keys w"
  by (simp add: cache_keys_def)

lemma classifyPaper_keys:
  "classifyPaper ev ttl pdf w = (r, w') \<Longrightarrow> cache_keys w' = cache_keys w"
  by (simp add: cache_keys_def classifyPaper_entries)

lemma cache_keys_update [simp]:
  "cache_keys (w\<lparr>cache := (cache w)\<lparr>entries := AList.update k v (entries (cache w))\<rparr>\<rparr>) =
     insert k (cache_keys w)"
  by (simp add: cache_keys_def dom_update)

lemma fetchCrossrefMetadata_keys:
  "fetchCrossrefMetadata ev d w = (r, w') \<Longrightarrow> cache_keys w' = cache_keys w"
  by (auto simp: cache_keys_def dest!: fetchCrossrefMetadata_cache)

lemma resolveMetadata_keys:
  assumes "resolveMetadata ev d w = (r, w')"
  shows "cache_keys w' \<subseteq> insert d (cache_keys w)"
proof (cases "map_of (entries (cache w)) d")
  case None
  obtain r1 w1 where f: "fetchCrossrefMetadata ev d w = (r1, w1)"
    by (cases "fetchCrossrefMetadata ev d w")
  have "cache w1 = cache w" using fetchCrossrefMetadata_cache [OF f] by simp
  then have "cache_keys (w1\<lparr>cache := (cache w1)\<lparr>entries := AList.update d v (entries (cache w1))\<rparr>, ticks := t\<rparr>)
      = insert d (cache_keys w)" for v t
    by (simp add: cache_keys_def dom_update)
  then show ?thesis using assms None f fetchCrossrefMetadata_keys [OF f]
    by (cases r1) (auto simp: resolveMetadata_def Let_def)
next
  case (Some e)
  then show ?thesis using assms by (auto simp: resolveMetadata_def)
qed

lemma attachClassification_keys:
  "attachClassification d c w = (r, w') \<Longrightarrow> cache_keys w' \<subseteq> insert d (cache_keys w)"
  by (cases "map_of (entries (cache w)) d") (auto simp: attachClassification_def)

lemma processDoi_try_keys:
  assumes "processDoi_try ev d w = (r, w')"
  shows "cache_keys w' \<subseteq> insert d (cache_keys w)"
proof (cases "Option.bind (map_of (entries (cache w)) d) classification")
  case (Some c)
  then show ?thesis using assms processDoi_try_cached_state [of w d c ev] by auto
next
  case None
  obtain r1 w1 where m: "resolveMetadata ev d w = (r1, w1)" by (cases "resolveMetadata ev d w")
  note k1 = resolveMetadata_keys [OF m]
  show ?thesis
  proof (cases r1)
    case (Inl e)
    then show ?thesis using assms None m k1 by (simp add: processDoi_try_def)
  next
    case (Inr md)
    obtain r2 w2 where c: "classifyPaper ev (title md) (pdfUrl md) w1 = (r2, w2)"
      by (cases "classifyPaper ev (title md) (pdfUrl md) w1")
    note k2 = classifyPaper_keys [OF c]
    show ?thesis
    proof (cases r2)
      case (Inl e)
      then show ?thesis using assms None m Inr c k1 k2
        by (auto simp: processDoi_try_def split: if_splits)
    next
      case (Inr cl)
      obtain r3 w3 where a: "attachClassification d cl w2 = (r3, w3)"
        by (cases "attachClassification d cl w2")
      note k3 = attachClassification_keys [OF a]
      have "cache_keys w3 \<subseteq> insert d (cache_keys w)" using k1 k2 k3 by blast
      then show ?thesis using assms None m \<open>r1 = Inr md\<close> c Inr a k1
        by (cases r3) (auto simp: processDoi_try_def split: if_splits)
    qed
  qed
qed

lemma processDoi_keys:
  "cache_keys (snd (processDoi ev d w)) \<subseteq> insert d (cache_keys w)"
  unfolding processDoi_def
  by (auto split: prod.splits sum.splits dest!: processDoi_try_keys)

lemma processAll_keys:
  "cache_keys (processAll ev ds w) \<subseteq> set ds \<union> cache_keys w"
  unfolding processAll_def
proof (induction ds arbitrary: w)
  case Nil
  then show ?case by simp
next
  case (Cons d ds)
  show ?case using Cons.IH [of "snd (processDoi ev d w)"] processDoi_keys [of ev d w] by auto
qed

lemma cache_ok_entries: "entries (cache w') = entries (cache w) \<Longrightarrow> cache_ok w' = cache_ok w"
  by (simp add: cache_ok_def)

lemma cache_ok_lookup: "cache_ok w \<Longrightarrow> map_of (entries (cache w)) d = Some e \<Longrightarrow> entry_ok e"
  by (auto simp: cache_ok_def list_all_iff dest!: map_of_SomeD)

lemma list_all_update:
  "list_all P al \<Longrightarrow> P (k, v) \<Longrightarrow> list_all P (AList.update k v al)"
  by (induction al) auto

lemma cache_ok_update:
  "cache_ok w \<Longrightarrow> entry_ok e \<Longrightarrow>
     cache_ok (w\<lparr>cache := (cache w)\<lparr>entries := AList.update k e (entries (cache w))\<rparr>\<rparr>)"
  by (simp add: cache_ok_def list_all_update)

lemma cache_ok_saveCache [simp]: "cache_ok (saveCache ev w) = cache_ok w"
  by (simp add: cache_ok_def)

lemma classifyPaper_cache_ok:
  "classifyPaper ev ttl pdf w = (r, w') \<Longrightarrow> cache_ok w' = cache_ok w"
  by (rule cache_ok_entries) (rule classifyPaper_entries)

lemma resolveMetadata_cache_ok:
  assumes "resolveMetadata ev d w = (r, w')" and "cache_ok w"
  shows "cache_ok w'"
proof (cases "map_of (entries (cache w)) d")
  case None
  obtain r1 w1 where f: "fetchCrossrefMetadata ev d w = (r1, w1)"
    by (cases "fetchCrossrefMetadata ev d w")
  have c: "cache w1 = cache w" using fetchCrossrefMetadata_cache [OF f] by simp
  then have ok1: "cache_ok w1" using assms(2) by (simp add: cache_ok_def)
  have "cache_ok (w1\<lparr>cache := (cache w1)\<lparr>entries := AList.update d e (entries (cache w1))\<rparr>, ticks := t\<rparr>)"
    if "entry_ok e" for e t
    using cache_ok_update [OF ok1 that, of d] by (simp add: cache_ok_def)
  then show ?thesis using assms None f ok1
    by (cases r1) (auto simp: resolveMetadata_def Let_def entry_ok_def)
next
  case (Some e)
  then show ?thesis using assms by (auto simp: resolveMetadata_def)
qed

lemma attachClassification_cache_ok:
  assumes "attachClassification d c w = (r, w')" and "cache_ok w"
    and "\<And>e. map_of (entries (cache w)) d = Some e \<Longrightarrow>
            truthy (title (metadata e)) \<and> truthy (pdfUrl (metadata e))"
  shows "cache_ok w'"
proof (cases "map_of (entries (cache w)) d")
  case None
  then show ?thesis using assms by (auto simp: attachClassification_def)
next
  case (Some e)
  have "entry_ok (e\<lparr>classification := Some c\<rparr>)" using assms(3) [OF Some] by (simp add: entry_ok_def)
  from cache_ok_update [OF assms(2) this, of d] show ?thesis
    using assms(1) Some by (auto simp: attachClassification_def)
qed

lemma processDoi_try_cache_ok:
  assumes "processDoi_try ev d w = (r, w')" and "cache_ok w"
  shows "cache_ok w'"
proof (cases "Option.bind (map_of (entries (cache w)) d) classification")
  case (Some c)
  then show ?thesis using assms processDoi_try_cached_state [of w d c ev] by auto
next
  case None
  obtain r1 w1 where m: "resolveMetadata ev d w = (r1, w1)" by (cases "resolveMetadata ev d w")
  note ok1 = resolveMetadata_cache_ok [OF m assms(2)]
  show ?thesis
  proof (cases r1)
    case (Inl e)
    then show ?thesis using assms None m ok1 by (simp add: processDoi_try_def)
  next
    case (Inr md)
    obtain r2 w2 where c: "classifyPaper ev (title md) (pdfUrl md) w1 = (r2, w2)"
      by (cases "classifyPaper ev (title md) (pdfUrl md) w1")
    have ok2: "cache_ok w2" using classifyPaper_cache_ok [OF c] ok1 by simp
    show ?thesis
    proof (cases "truthy (title md) \<and> truthy (pdfUrl md)")
      case False
      then show ?thesis using assms None m Inr ok1
        by (auto simp: processDoi_try_def split: if_splits)
    next
      case True
      show ?thesis
      proof (cases r2)
        case (Inl e)
        then show ?thesis using assms None m \<open>r1 = Inr md\<close> c ok2 True
          by (auto simp: processDoi_try_def)
      next
        case (Inr cl)
        obtain r3 w3 where a: "attachClassification d cl w2 = (r3, w3)"
          by (cases "attachClassification d cl w2")
        have "metadata e = md" if "map_of (entries (cache w2)) d = Some e" for e
          using resolveMetadata_entry [of ev d w md w1] m \<open>r1 = Inr md\<close> classifyPaper_entries [OF c] that
          by auto
        then have ok3: "cache_ok w3"
          using attachClassification_cache_ok [OF a ok2] True by auto
        show ?thesis using assms None m \<open>r1 = Inr md\<close> c Inr a ok3 True
          by (cases r3) (auto simp: processDoi_try_def)
      qed
    qed
  qed
qed

lemma processDoi_cache_ok:
  "cache_ok w \<Longrightarrow> cache_ok (snd (processDoi ev d w))"
  unfolding processDoi_def
  by (auto split: prod.splits sum.splits dest: processDoi_try_cache_ok)

lemma step_cache_ok: "cache_ok w \<Longrightarrow> cache_ok (step ev x w)"
proof (cases x)
  case (OpClassifyPaper ttl pdf)
  assume "cache_ok w"
  then show ?thesis using OpClassifyPaper classifyPaper_cache_ok [of ev ttl pdf w]
    by (cases "classifyPaper ev ttl pdf w") simp
qed (simp_all add: processDoi_cache_ok)

lemma reachable_cache_ok: "reachable ev w \<Longrightarrow> cache_ok w"
proof (induction rule: reachable.induct)
  case reachable_init
  show ?case by (simp add: cache_ok_def initial_world_def initial_cache_def)
next
  case (reachable_step w x)
  then show ?case by (simp add: step_cache_ok)
qed

lemma resolveMetadata_kgx3:
  "resolveMetadata ev d w = (r, w') \<Longrightarrow> kgx3_calls w' = kgx3_calls w"
  by (auto simp: kgx3_calls_def dest!: resolveMetadata_net)


subsection \<open>The matcher and the patterns\<close>

lemma toLowerCase_length: "toLowerCase u = toLowerCase l \<Longrightarrow> length u = length l"
  by (metis length_map toLowerCase_def)

lemma lits_ok_iff: "lits_ok l s \<longleftrightarrow> (\<exists>u rest. s = u @ rest \<and> toLowerCase u = toLowerCase l)"
proof
  assume "lits_ok l s"
  then have "s = take (length l) s @ drop (length l) s \<and> toLowerCase (take (length l) s) = toLowerCase l"
    by (simp add: lits_ok_def)
  then show "\<exists>u rest. s = u @ rest \<and> toLowerCase u = toLowerCase l" by blast
next
  assume "\<exists>u rest. s = u @ rest \<and> toLowerCase u = toLowerCase l"
  then obtain u rest where "s = u @ rest" "toLowerCase u = toLowerCase l" by blast
  then show "lits_ok l s" using toLowerCase_length [of u l] by (simp add: lits_ok_def)
qed

lemma matches_Lits:
  "(c, rest) \<in> set (matches (Lits l) s) \<longleftrightarrow> (\<exists>u. s = u @ rest \<and> (u, c) \<in> langc (Lits l))"
proof
  assume "(c, rest) \<in> set (matches (Lits l) s)"
  then have l: "lits_ok l s" and c: "c = None" and r: "rest = drop (length l) s"
    by (auto split: if_splits)
  have "s = take (length l) s @ rest" using r by simp
  moreover have "toLowerCase (take (length l) s) = toLowerCase l" using l by (simp add: lits_ok_def)
  ultimately show "\<exists>u. s = u @ rest \<and> (u, c) \<in> langc (Lits l)" using c by auto
next
  assume "\<exists>u. s = u @ rest \<and> (u, c) \<in> langc (Lits l)"
  then obtain u where u: "s = u @ rest" "toLowerCase u = toLowerCase l" "c = None" by auto
  then have "lits_ok l s" using lits_ok_iff by blast
  moreover have "drop (length l) s = rest" using u toLowerCase_length [of u l] by simp
  ultimately show "(c, rest) \<in> set (matches (Lits l) s)" using u by simp
qed

lemma run_length_append:
  "\<forall>x \<in> set u. P x \<Longrightarrow> length u \<le> length (takeWhile P (u @ rest))"
  by (simp add: takeWhile_append2)

lemma take_run_all: "k \<le> length (takeWhile P s) \<Longrightarrow> \<forall>x \<in> set (take k s). P x"
proof -
  assume k: "k \<le> length (takeWhile P s)"
  have "take k s = take k (takeWhile P s @ dropWhile P s)" by simp
  also have "\<dots> = take k (takeWhile P s)" using k by (simp del: takeWhile_dropWhile_id)
  finally have "set (take k s) \<subseteq> set (takeWhile P s)" by (metis set_take_subset)
  then show ?thesis by (meson set_takeWhileD subsetD)
qed

lemma matches_Rep_eq:
  "matches (Rep lo hi c) s = map (\<lambda>k. (None, drop k s)) (rev [lo ..< Suc (rep_top hi c s)])"
  by (simp add: rep_top_def Let_def)

lemma matches_Rep:
  "(cp, rest) \<in> set (matches (Rep lo hi c) s) \<longleftrightarrow> (\<exists>u. s = u @ rest \<and> (u, cp) \<in> langc (Rep lo hi c))"
proof
  assume "(cp, rest) \<in> set (matches (Rep lo hi c) s)"
  then obtain k where k: "lo \<le> k" "k \<le> rep_top hi c s"
      and r: "rest = drop k s" and c: "cp = None"
    unfolding matches_Rep_eq by auto
  have kn: "k \<le> length (takeWhile (cls_ok c) s)" using k(2) by (cases hi) (auto simp: rep_top_def)
  have kl: "k \<le> length s" using kn length_takeWhile_le [of "cls_ok c" s] by linarith
  have "s = take k s @ rest" using r by simp
  moreover have "\<forall>x \<in> set (take k s). cls_ok c x" using take_run_all [OF kn] .
  moreover have len: "length (take k s) = k" using kl by simp
  moreover have "case hi of None \<Rightarrow> True | Some h \<Rightarrow> length (take k s) \<le> h"
    unfolding len using k(2) by (cases hi) (auto simp: rep_top_def)
  moreover have "lo \<le> length (take k s)" unfolding len using k(1) .
  ultimately have "(take k s, cp) \<in> langc (Rep lo hi c)" using c by simp
  then show "\<exists>u. s = u @ rest \<and> (u, cp) \<in> langc (Rep lo hi c)"
    using \<open>s = take k s @ rest\<close> by blast
next
  assume "\<exists>u. s = u @ rest \<and> (u, cp) \<in> langc (Rep lo hi c)"
  then obtain u where u: "s = u @ rest" "\<forall>x \<in> set u. cls_ok c x" "lo \<le> length u"
      "case hi of None \<Rightarrow> True | Some h \<Rightarrow> length u \<le> h" "cp = None"
    by auto
  have n: "length u \<le> length (takeWhile (cls_ok c) s)" using u(1,2) run_length_append by blast
  have "length u \<le> rep_top hi c s" using u(4) n by (cases hi) (auto simp: rep_top_def)
  then have "length u \<in> set (rev [lo ..< Suc (rep_top hi c s)])" using u(3) by auto
  moreover have "drop (length u) s = rest" using u(1) by simp
  ultimately show "(cp, rest) \<in> set (matches (Rep lo hi c) s)"
    unfolding matches_Rep_eq using u(5) by (auto simp: image_iff)
qed

lemma matches_Seq_iff:
  "(c, rest) \<in> set (matches (Seq a b) s) \<longleftrightarrow>
     (\<exists>c1 s1 c2. (c1, s1) \<in> set (matches a s) \<and> (c2, rest) \<in> set (matches b s1) \<and>
        c = (case c2 of None \<Rightarrow> c1 | Some g \<Rightarrow> Some g))"
  by (auto simp: image_iff) force

lemma matches_langc:
  "(c, rest) \<in> set (matches r s) \<longleftrightarrow> (\<exists>u. s = u @ rest \<and> (u, c) \<in> langc r)"
proof (induction r arbitrary: c rest s)
  case (Lits l)
  show ?case by (rule matches_Lits)
next
  case (Seq a b)
  show ?case
  proof
    assume "(c, rest) \<in> set (matches (Seq a b) s)"
    then obtain c1 s1 c2 where m1: "(c1, s1) \<in> set (matches a s)" and m2: "(c2, rest) \<in> set (matches b s1)"
        and c: "c = (case c2 of None \<Rightarrow> c1 | Some g \<Rightarrow> Some g)"
      unfolding matches_Seq_iff by blast
    from m1 Seq.IH(1) obtain u where u: "s = u @ s1" "(u, c1) \<in> langc a" by blast
    from m2 Seq.IH(2) obtain v where v: "s1 = v @ rest" "(v, c2) \<in> langc b" by blast
    show "\<exists>w. s = w @ rest \<and> (w, c) \<in> langc (Seq a b)"
      using u v c by (intro exI [of _ "u @ v"]) auto
  next
    assume "\<exists>w. s = w @ rest \<and> (w, c) \<in> langc (Seq a b)"
    then obtain u v c1 c2 where w: "s = (u @ v) @ rest" "(u, c1) \<in> langc a" "(v, c2) \<in> langc b"
        "c = (case c2 of None \<Rightarrow> c1 | Some g \<Rightarrow> Some g)"
      by auto
    have m1: "(c1, v @ rest) \<in> set (matches a s)" using Seq.IH(1) w(1,2) by auto
    have m2: "(c2, rest) \<in> set (matches b (v @ rest))" using Seq.IH(2) w(3) by auto
    show "(c, rest) \<in> set (matches (Seq a b) s)"
      unfolding matches_Seq_iff using m1 m2 w(4) by blast
  qed
next
  case (Opt r)
  show ?case using Opt.IH [of c rest s] by auto
next
  case (Rep lo hi cl)
  show ?case by (rule matches_Rep)
next
  case (Group r)
  show ?case
  proof
    assume "(c, rest) \<in> set (matches (Group r) s)"
    then obtain c0 where m: "(c0, rest) \<in> set (matches r s)"
        and c: "c = Some (take (length s - length rest) s)"
      by auto
    from m Group.IH obtain u where u: "s = u @ rest" "(u, c0) \<in> langc r" by blast
    then have "take (length s - length rest) s = u" by simp
    then show "\<exists>u. s = u @ rest \<and> (u, c) \<in> langc (Group r)" using u c by auto
  next
    assume "\<exists>u. s = u @ rest \<and> (u, c) \<in> langc (Group r)"
    then obtain u c0 where u: "s = u @ rest" "(u, c0) \<in> langc r" "c = Some u" by auto
    then have "(c0, rest) \<in> set (matches r s)" using Group.IH by blast
    moreover have "take (length s - length rest) s = u" using u(1) by simp
    ultimately show "(c, rest) \<in> set (matches (Group r) s)"
      using u(3) by (auto simp: image_iff intro!: bexI [of _ "(c0, rest)"])
  qed
qed

lemma lower_char_fix: "\<not> is_upper x \<Longrightarrow> \<not> is_lower x \<Longrightarrow> lower_char c = x \<longleftrightarrow> c = x"
proof -
  assume x: "\<not> is_upper x" "\<not> is_lower x"
  have "is_lower (lower_char c)" if "is_upper c"
  proof -
    have "(of_char c :: nat) + 32 < 256" using that by (simp add: is_upper_def)
    then have "(of_char (char_of ((of_char c :: nat) + 32)) :: nat) = of_char c + 32" by simp
    then show ?thesis using that by (simp add: lower_char_def is_lower_def is_upper_def)
  qed
  then show ?thesis using x by (auto simp: lower_char_def)
qed

lemma toLowerCase_simps [simp]:
  "toLowerCase [] = []" "toLowerCase (c # cs) = lower_char c # toLowerCase cs"
  "toLowerCase (a @ b) = toLowerCase a @ toLowerCase b"
  by (simp_all add: toLowerCase_def)

lemma toLowerCase_Nil_iff [simp]: "toLowerCase u = [] \<longleftrightarrow> u = []"
  by (simp add: toLowerCase_def)

lemma toLowerCase_fix:
  "(\<forall>x \<in> set l. \<not> is_upper x \<and> \<not> is_lower x) \<Longrightarrow> toLowerCase u = l \<longleftrightarrow> u = l"
proof (induction l arbitrary: u)
  case Nil
  show ?case by simp
next
  case (Cons x xs)
  show ?case
  proof (cases u)
    case Nil
    then show ?thesis by simp
  next
    case (Cons c cs)
    have "lower_char c = x \<longleftrightarrow> c = x" using Cons.prems lower_char_fix by simp
    moreover have "toLowerCase cs = xs \<longleftrightarrow> cs = xs" using Cons.IH Cons.prems by simp
    ultimately show ?thesis using Cons by simp
  qed
qed

lemma plain_10: "\<forall>x \<in> set ''10.''. \<not> is_upper x \<and> \<not> is_lower x"
  by (simp add: is_upper_def is_lower_def)

lemma plain_slash: "\<forall>x \<in> set ''/''. \<not> is_upper x \<and> \<not> is_lower x"
  by (simp add: is_upper_def is_lower_def)

lemma lower_10: "toLowerCase u = toLowerCase ''10.'' \<longleftrightarrow> u = ''10.''"
  using toLowerCase_fix [OF plain_10, of u] toLowerCase_fix [OF plain_10, of "''10.''"] by simp

lemma lower_slash: "toLowerCase u = toLowerCase ''/'' \<longleftrightarrow> u = ''/''"
  using toLowerCase_fix [OF plain_slash, of u] toLowerCase_fix [OF plain_slash, of "''/''"] by simp

lemma langc_Seq_iff:
  "(w, c) \<in> langc (Seq a b) \<longleftrightarrow>
     (\<exists>u v c1 c2. w = u @ v \<and> (u, c1) \<in> langc a \<and> (v, c2) \<in> langc b \<and>
        c = (case c2 of None \<Rightarrow> c1 | Some g \<Rightarrow> Some g))"
  by auto

lemma langc_Lits_iff: "(w, c) \<in> langc (Lits l) \<longleftrightarrow> toLowerCase w = toLowerCase l \<and> c = None"
  by auto

lemma langc_Rep_iff:
  "(w, c) \<in> langc (Rep lo hi cl) \<longleftrightarrow>
     (\<forall>x \<in> set w. cls_ok cl x) \<and> lo \<le> length w \<and>
     (case hi of None \<Rightarrow> True | Some h \<Rightarrow> length w \<le> h) \<and> c = None"
  by auto

lemma langc_Opt_iff: "(w, c) \<in> langc (Opt r) \<longleftrightarrow> (w = [] \<and> c = None) \<or> (w, c) \<in> langc r"
  by auto

lemma langc_Group_iff: "(w, c) \<in> langc (Group r) \<longleftrightarrow> (\<exists>c0. (w, c0) \<in> langc r) \<and> c = Some w"
  by auto

lemma langc_SeqI_None:
  "(u, c1) \<in> langc a \<Longrightarrow> (v, None) \<in> langc b \<Longrightarrow> (u @ v, c1) \<in> langc (Seq a b)"
  unfolding langc_Seq_iff [of "u @ v"]
  by (rule exI [of _ u], rule exI [of _ v], rule exI [of _ c1], rule exI [of _ None]) simp

lemma langc_SeqI_Some:
  "(u, c1) \<in> langc a \<Longrightarrow> (v, Some g) \<in> langc b \<Longrightarrow> (u @ v, Some g) \<in> langc (Seq a b)"
  unfolding langc_Seq_iff [of "u @ v"]
  by (rule exI [of _ u], rule exI [of _ v], rule exI [of _ c1], rule exI [of _ "Some g"]) simp

lemma langc_directDoiBody: "(w, c) \<in> langc directDoiBody \<longleftrightarrow> doi_shaped w \<and> c = None"
proof
  assume "(w, c) \<in> langc directDoiBody"
  then obtain a r1 c1 c2 where 1: "w = a @ r1" "(a, c1) \<in> langc (Lits ''10.'')"
      "(r1, c2) \<in> langc (Seq (Rep 4 (Some 9) Digit) (Seq (Lits ''/'') (Rep 1 None DoiChar)))"
      "c = (case c2 of None \<Rightarrow> c1 | Some g \<Rightarrow> Some g)"
    unfolding directDoiBody_def langc_Seq_iff [of w c] by blast
  from 1(3) obtain ds r2 c3 c4 where 2: "r1 = ds @ r2" "(ds, c3) \<in> langc (Rep 4 (Some 9) Digit)"
      "(r2, c4) \<in> langc (Seq (Lits ''/'') (Rep 1 None DoiChar))"
      "c2 = (case c4 of None \<Rightarrow> c3 | Some g \<Rightarrow> Some g)"
    unfolding langc_Seq_iff [of r1 c2] by blast
  from 2(3) obtain sl suf c5 c6 where 3: "r2 = sl @ suf" "(sl, c5) \<in> langc (Lits ''/'')"
      "(suf, c6) \<in> langc (Rep 1 None DoiChar)"
      "c4 = (case c6 of None \<Rightarrow> c5 | Some g \<Rightarrow> Some g)"
    unfolding langc_Seq_iff [of r2 c4] by blast
  have a: "a = ''10.''" "c1 = None" using 1(2) lower_10 unfolding langc_Lits_iff by blast+
  have sl: "sl = ''/''" "c5 = None" using 3(2) lower_slash unfolding langc_Lits_iff by blast+
  have ds: "\<forall>x \<in> set ds. is_digit x" "4 \<le> length ds" "length ds \<le> 9" "c3 = None"
    using 2(2) unfolding langc_Rep_iff by simp_all
  have suf: "\<forall>x \<in> set suf. cls_ok DoiChar x" "1 \<le> length suf" "c6 = None"
    using 3(3) unfolding langc_Rep_iff by simp_all
  have "suf \<noteq> []" using suf(2) by auto
  moreover have "w = ''10.'' @ ds @ ''/'' @ suf" using 1(1) 2(1) 3(1) a(1) sl(1) by simp
  moreover have "c = None" using 1(4) 2(4) 3(4) a(2) sl(2) ds(4) suf(3) by simp
  ultimately show "doi_shaped w \<and> c = None"
    using ds(1,2,3) suf(1) unfolding doi_shaped_def by blast
next
  assume "doi_shaped w \<and> c = None"
  then obtain ds suf where w: "w = ''10.'' @ ds @ ''/'' @ suf" and c: "c = None"
      and ds: "\<forall>x \<in> set ds. is_digit x" "4 \<le> length ds" "length ds \<le> 9"
      and suf: "\<forall>x \<in> set suf. cls_ok DoiChar x" "suf \<noteq> []"
    unfolding doi_shaped_def by blast
  have "1 \<le> length suf" using suf(2) by (cases suf) simp_all
  then have 4: "(suf, None) \<in> langc (Rep 1 None DoiChar)"
    unfolding langc_Rep_iff using suf(1) by simp
  have s: "(''/'', None) \<in> langc (Lits ''/'')" unfolding langc_Lits_iff by simp
  have 3: "(''/'' @ suf, None) \<in> langc (Seq (Lits ''/'') (Rep 1 None DoiChar))"
    by (rule langc_SeqI_None [OF s 4])
  have d: "(ds, None) \<in> langc (Rep 4 (Some 9) Digit)"
    unfolding langc_Rep_iff using ds by simp
  have 2: "(ds @ ''/'' @ suf, None) \<in>
      langc (Seq (Rep 4 (Some 9) Digit) (Seq (Lits ''/'') (Rep 1 None DoiChar)))"
    by (rule langc_SeqI_None [OF d 3])
  have t: "(''10.'', None) \<in> langc (Lits ''10.'')" unfolding langc_Lits_iff by simp
  have 1: "(''10.'' @ ds @ ''/'' @ suf, None) \<in> langc directDoiBody"
    unfolding directDoiBody_def by (rule langc_SeqI_None [OF t 2])
  show "(w, c) \<in> langc directDoiBody" using 1 w c by simp
qed

lemma langc_directDoiRegex: "(w, c) \<in> langc directDoiRegex \<longleftrightarrow> doi_shaped w \<and> c = Some w"
  unfolding directDoiRegex_def using langc_directDoiBody by auto

lemma lower_lits:
  "toLowerCase ''http'' = ''http''" "toLowerCase ''s'' = ''s''" "toLowerCase ''://'' = ''://''"
  "toLowerCase ''dx.'' = ''dx.''" "toLowerCase ''doi.org'' = ''doi.org''"
  by (simp_all add: lower_char_def is_upper_def)

lemma lower_split:
  "toLowerCase w = a @ b \<Longrightarrow> \<exists>u v. w = u @ v \<and> toLowerCase u = a \<and> toLowerCase v = b"
  unfolding toLowerCase_def by (metis map_eq_append_conv)

lemma langc_scheme:
  "(w, c) \<in> langc schemeRegex \<longleftrightarrow>
     (toLowerCase w = ''http://'' \<or> toLowerCase w = ''https://'') \<and> c = None"
proof
  assume "(w, c) \<in> langc schemeRegex"
  then obtain h r1 c1 c2 where 1: "w = h @ r1" "(h, c1) \<in> langc (Lits ''http'')"
      "(r1, c2) \<in> langc (Seq (Opt (Lits ''s'')) (Lits ''://''))"
      "c = (case c2 of None \<Rightarrow> c1 | Some g \<Rightarrow> Some g)"
    unfolding schemeRegex_def langc_Seq_iff [of w c] by blast
  from 1(3) obtain s r2 c3 c4 where 2: "r1 = s @ r2" "(s, c3) \<in> langc (Opt (Lits ''s''))"
      "(r2, c4) \<in> langc (Lits ''://'')" "c2 = (case c4 of None \<Rightarrow> c3 | Some g \<Rightarrow> Some g)"
    unfolding langc_Seq_iff [of r1 c2] by blast
  have h: "toLowerCase h = ''http''" "c1 = None"
    using 1(2) unfolding langc_Lits_iff lower_lits by blast+
  have s: "s = [] \<or> toLowerCase s = ''s''" "c3 = None"
    using 2(2) unfolding langc_Opt_iff langc_Lits_iff lower_lits by blast+
  have r: "toLowerCase r2 = ''://''" "c4 = None"
    using 2(3) unfolding langc_Lits_iff lower_lits by blast+
  have "c = None" using 1(4) 2(4) h(2) s(2) r(2) by simp
  moreover have "toLowerCase w = ''http'' @ toLowerCase s @ ''://''"
    using 1(1) 2(1) h(1) r(1) by simp
  ultimately show "(toLowerCase w = ''http://'' \<or> toLowerCase w = ''https://'') \<and> c = None"
    using s(1) by auto
next
  assume a: "(toLowerCase w = ''http://'' \<or> toLowerCase w = ''https://'') \<and> c = None"
  then have "\<exists>s. toLowerCase w = ''http'' @ s @ ''://'' \<and> (s = [] \<or> s = ''s'')" by auto
  then obtain s0 where s0: "toLowerCase w = ''http'' @ s0 @ ''://''" "s0 = [] \<or> s0 = ''s''" by blast
  from lower_split [OF s0(1)] obtain h r1 where 1: "w = h @ r1" "toLowerCase h = ''http''"
      "toLowerCase r1 = s0 @ ''://''" by blast
  from lower_split [OF 1(3)] obtain s r2 where 2: "r1 = s @ r2" "toLowerCase s = s0"
      "toLowerCase r2 = ''://''" by blast
  have mh: "(h, None) \<in> langc (Lits ''http'')" unfolding langc_Lits_iff lower_lits using 1(2) by simp
  have ms: "(s, None) \<in> langc (Opt (Lits ''s''))"
    unfolding langc_Opt_iff langc_Lits_iff lower_lits using 2(2) s0(2) by auto
  have mr: "(r2, None) \<in> langc (Lits ''://'')" unfolding langc_Lits_iff lower_lits using 2(3) by simp
  have "(h @ s @ r2, None) \<in> langc schemeRegex"
    unfolding schemeRegex_def by (rule langc_SeqI_None [OF mh langc_SeqI_None [OF ms mr]])
  then show "(w, c) \<in> langc schemeRegex" using 1(1) 2(1) a by simp
qed

lemma doiRegex_scheme:
  "doiRegex = Seq (Opt schemeRegex)
       (Seq (Opt (Lits ''dx.''))
         (Seq (Lits ''doi.org'')
           (Seq (Opt (Lits ''/'')) (Group directDoiBody))))"
  by (simp add: doiRegex_def schemeRegex_def)

lemma langc_doiRegex:
  "(w, c) \<in> langc doiRegex \<longleftrightarrow>
     (\<exists>u d. w = u @ d \<and> resolver_prefix u \<and> doi_shaped d \<and> c = Some d)"
proof
  assume "(w, c) \<in> langc doiRegex"
  then obtain sc r1 c1 c2 where 1: "w = sc @ r1" "(sc, c1) \<in> langc (Opt schemeRegex)"
      "(r1, c2) \<in> langc (Seq (Opt (Lits ''dx.'')) (Seq (Lits ''doi.org'')
                              (Seq (Opt (Lits ''/'')) (Group directDoiBody))))"
      "c = (case c2 of None \<Rightarrow> c1 | Some g \<Rightarrow> Some g)"
    unfolding doiRegex_scheme langc_Seq_iff [of w c] by blast
  from 1(3) obtain dx r2 c3 c4 where 2: "r1 = dx @ r2" "(dx, c3) \<in> langc (Opt (Lits ''dx.''))"
      "(r2, c4) \<in> langc (Seq (Lits ''doi.org'') (Seq (Opt (Lits ''/'')) (Group directDoiBody)))"
      "c2 = (case c4 of None \<Rightarrow> c3 | Some g \<Rightarrow> Some g)"
    unfolding langc_Seq_iff [of r1 c2] by blast
  from 2(3) obtain host r3 c5 c6 where 3: "r2 = host @ r3" "(host, c5) \<in> langc (Lits ''doi.org'')"
      "(r3, c6) \<in> langc (Seq (Opt (Lits ''/'')) (Group directDoiBody))"
      "c4 = (case c6 of None \<Rightarrow> c5 | Some g \<Rightarrow> Some g)"
    unfolding langc_Seq_iff [of r2 c4] by blast
  from 3(3) obtain sl d c7 c8 where 4: "r3 = sl @ d" "(sl, c7) \<in> langc (Opt (Lits ''/''))"
      "(d, c8) \<in> langc (Group directDoiBody)"
      "c6 = (case c8 of None \<Rightarrow> c7 | Some g \<Rightarrow> Some g)"
    unfolding langc_Seq_iff [of r3 c6] by blast
  have d: "doi_shaped d" "c8 = Some d"
    using 4(3) langc_directDoiBody unfolding langc_Group_iff by blast+
  have sl: "sl = [] \<or> sl = ''/''"
    using 4(2) lower_slash unfolding langc_Opt_iff langc_Lits_iff by blast
  have host: "toLowerCase host = ''doi.org''"
    using 3(2) unfolding langc_Lits_iff lower_lits by blast
  have dx: "dx = [] \<or> toLowerCase dx = ''dx.''"
    using 2(2) unfolding langc_Opt_iff langc_Lits_iff lower_lits by blast
  have sc: "sc = [] \<or> toLowerCase sc = ''http://'' \<or> toLowerCase sc = ''https://''"
    using 1(2) langc_scheme unfolding langc_Opt_iff by blast
  have c: "c = Some d" using 1(4) 2(4) 3(4) 4(4) d(2) by simp
  have "resolver_prefix (sc @ dx @ host @ sl)"
    unfolding resolver_prefix_def using sc dx host sl by blast
  moreover have "w = (sc @ dx @ host @ sl) @ d" using 1(1) 2(1) 3(1) 4(1) by simp
  ultimately show "\<exists>u d. w = u @ d \<and> resolver_prefix u \<and> doi_shaped d \<and> c = Some d"
    using d(1) c by blast
next
  assume "\<exists>u d. w = u @ d \<and> resolver_prefix u \<and> doi_shaped d \<and> c = Some d"
  then obtain u d where w: "w = u @ d" and u: "resolver_prefix u" and d: "doi_shaped d"
      and c: "c = Some d" by blast
  from u obtain sc dx host sl where p: "u = sc @ dx @ host @ sl"
      "sc = [] \<or> toLowerCase sc = ''http://'' \<or> toLowerCase sc = ''https://''"
      "dx = [] \<or> toLowerCase dx = ''dx.''" "toLowerCase host = ''doi.org''"
      "sl = [] \<or> sl = ''/''"
    unfolding resolver_prefix_def by blast
  have md: "(d, Some d) \<in> langc (Group directDoiBody)"
    unfolding langc_Group_iff using d langc_directDoiBody by blast
  have msl: "(sl, None) \<in> langc (Opt (Lits ''/''))"
    unfolding langc_Opt_iff langc_Lits_iff using p(5) by auto
  have mh: "(host, None) \<in> langc (Lits ''doi.org'')"
    unfolding langc_Lits_iff lower_lits using p(4) by simp
  have mdx: "(dx, None) \<in> langc (Opt (Lits ''dx.''))"
    unfolding langc_Opt_iff langc_Lits_iff lower_lits using p(3) by auto
  have msc: "(sc, None) \<in> langc (Opt schemeRegex)"
    unfolding langc_Opt_iff using p(2) langc_scheme by blast
  have "(sc @ dx @ host @ sl @ d, Some d) \<in> langc doiRegex"
    unfolding doiRegex_scheme
    by (rule langc_SeqI_Some [OF msc langc_SeqI_Some [OF mdx langc_SeqI_Some [OF mh
          langc_SeqI_Some [OF msl md]]]])
  then show "(w, c) \<in> langc doiRegex" using w p(1) c by simp
qed

lemma hd_concat_map:
  "concat (map f xs) \<noteq> [] \<Longrightarrow> \<exists>x \<in> set xs. f x \<noteq> [] \<and> hd (concat (map f xs)) = hd (f x)"
proof (induction xs)
  case Nil
  then show ?case by simp
next
  case (Cons x xs)
  show ?case
  proof (cases "f x = []")
    case True
    then show ?thesis using Cons by auto
  next
    case False
    then show ?thesis by auto
  qed
qed

lemma ends_here_dropWhile: "ends_here (dropWhile (cls_ok DoiChar) s)"
proof (cases "dropWhile (cls_ok DoiChar) s")
  case Nil
  then show ?thesis unfolding ends_here_def by (simp only: list.case)
next
  case (Cons x rest)
  then have "\<not> cls_ok DoiChar x" using hd_dropWhile [of "cls_ok DoiChar" s] by auto
  then show ?thesis using Cons by (simp add: ends_here_def)
qed

lemma stops_Rep: "stops (Rep (Suc 0) None DoiChar)"
  unfolding stops_def
proof (intro allI impI)
  fix s
  let ?n = "length (takeWhile (cls_ok DoiChar) s)"
  assume ne: "matches (Rep (Suc 0) None DoiChar) s \<noteq> []"
  have m: "matches (Rep (Suc 0) None DoiChar) s = map (\<lambda>k. (None, drop k s)) (rev [Suc 0 ..< Suc ?n])"
    by (simp add: Let_def)
  then have n: "Suc 0 \<le> ?n" using ne by (cases "Suc 0 \<le> ?n") auto
  then have "rev [Suc 0 ..< Suc ?n] = ?n # rev [Suc 0 ..< ?n]" by simp
  then have "hd (matches (Rep (Suc 0) None DoiChar) s) = (None, drop ?n s)" using m by simp
  then show "ends_here (snd (hd (matches (Rep (Suc 0) None DoiChar) s)))"
    using ends_here_dropWhile [of s] by (simp add: dropWhile_eq_drop)
qed

lemma stops_Seq: "stops b \<Longrightarrow> stops (Seq a b)"
  unfolding stops_def
proof (intro allI impI)
  fix s
  assume b: "\<forall>s. matches b s \<noteq> [] \<longrightarrow> ends_here (snd (hd (matches b s)))"
  let ?g = "\<lambda>c1. \<lambda>(c2, s2). (case c2 of None \<Rightarrow> c1 | Some g \<Rightarrow> Some g, s2)"
  let ?f = "\<lambda>(c1, s1). map (?g c1) (matches b s1)"
  assume "matches (Seq a b) s \<noteq> []"
  then have "concat (map ?f (matches a s)) \<noteq> []" by simp
  from hd_concat_map [OF this] obtain x where x: "x \<in> set (matches a s)" "?f x \<noteq> []"
      "hd (concat (map ?f (matches a s))) = hd (?f x)" by blast
  obtain c1 s1 where xs: "x = (c1, s1)" by (cases x)
  have ne: "matches b s1 \<noteq> []" using x(2) xs by auto
  have "hd (?f x) = ?g c1 (hd (matches b s1))" using xs ne by (simp add: hd_map)
  then have "snd (hd (?f x)) = snd (hd (matches b s1))" by (cases "hd (matches b s1)") simp
  then show "ends_here (snd (hd (matches (Seq a b) s)))" using x(3) b ne by simp
qed

lemma stops_Group: "stops r \<Longrightarrow> stops (Group r)"
  unfolding stops_def
proof (intro allI impI)
  fix s
  assume r: "\<forall>s. matches r s \<noteq> [] \<longrightarrow> ends_here (snd (hd (matches r s)))"
  assume "matches (Group r) s \<noteq> []"
  then have ne: "matches r s \<noteq> []" by auto
  then have "snd (hd (matches (Group r) s)) = snd (hd (matches r s))"
    by (cases "hd (matches r s)") (simp add: hd_map)
  then show "ends_here (snd (hd (matches (Group r) s)))" using r ne by simp
qed

lemma stops_directDoiRegex: "stops directDoiRegex"
  unfolding directDoiRegex_def directDoiBody_def
  by (intro stops_Group stops_Seq) (simp add: stops_Rep)

lemma stops_doiRegex: "stops doiRegex"
  unfolding doiRegex_def directDoiBody_def
  by (intro stops_Group stops_Seq) (simp add: stops_Rep)

lemma exec_None: "exec r s = None \<longleftrightarrow> (\<forall>pre t. s = pre @ t \<longrightarrow> matches r t = [])"
proof (induction s)
  case Nil
  show ?case by (auto split: list.splits)
next
  case (Cons x xs)
  have "(\<forall>pre t. x # xs = pre @ t \<longrightarrow> matches r t = []) \<longleftrightarrow>
        matches r (x # xs) = [] \<and> (\<forall>pre t. xs = pre @ t \<longrightarrow> matches r t = [])"
    by (auto simp: Cons_eq_append_conv)
  then show ?case using Cons.IH by (auto split: list.splits)
qed

lemma exec_Some:
  "exec r s = Some g \<Longrightarrow>
     \<exists>pre t. s = pre @ t \<and> matches r t \<noteq> [] \<and> g = fst (hd (matches r t)) \<and>
       (\<forall>pre' t'. s = pre' @ t' \<and> length pre' < length pre \<longrightarrow> matches r t' = [])"
proof (induction s)
  case Nil
  then have "matches r [] \<noteq> [] \<and> g = fst (hd (matches r []))"
    by (auto split: list.splits)
  then show ?case by (intro exI [of _ "[]"]) simp
next
  case (Cons x xs)
  show ?case
  proof (cases "matches r (x # xs)")
    case Nil
    then have "exec r xs = Some g" using Cons.prems by simp
    from Cons.IH [OF this] obtain pre t where p: "xs = pre @ t" "matches r t \<noteq> []"
        "g = fst (hd (matches r t))"
        "\<forall>pre' t'. xs = pre' @ t' \<and> length pre' < length pre \<longrightarrow> matches r t' = []"
      by blast
    have "matches r t' = []" if "x # xs = pre' @ t'" "length pre' < length (x # pre)" for pre' t'
    proof (cases pre')
      case Nil
      then show ?thesis using that \<open>matches r (x # xs) = []\<close> by simp
    next
      case (Cons y ys)
      then show ?thesis using that p(4) by auto
    qed
    then show ?thesis using p(1,2,3) by (intro exI [of _ "x # pre"] exI [of _ t]) auto
  next
    case (Cons m ms)
    then have "g = fst (hd (matches r (x # xs)))" using Cons.prems by (cases m) simp
    then show ?thesis using Cons by (intro exI [of _ "[]"] exI [of _ "x # xs"]) simp
  qed
qed

lemma matches_sound:
  "(c, rest) \<in> set (matches r s) \<Longrightarrow> \<exists>u. s = u @ rest \<and> (u, c) \<in> langc r"
  by (simp add: matches_langc)

lemma matches_complete:
  "(u, c) \<in> langc r \<Longrightarrow> (c, rest) \<in> set (matches r (u @ rest))"
  unfolding matches_langc by (rule exI [of _ u]) simp

lemma matches_nonempty: "(u, c) \<in> langc r \<Longrightarrow> matches r (u @ rest) \<noteq> []"
  using matches_complete [of u c r rest] by (cases "matches r (u @ rest)") simp_all

lemma matches_hd:
  assumes "matches r t \<noteq> []"
  shows "\<exists>u. t = u @ snd (hd (matches r t)) \<and> (u, fst (hd (matches r t))) \<in> langc r"
proof -
  have "(fst (hd (matches r t)), snd (hd (matches r t))) \<in> set (matches r t)"
    using assms by simp
  then show ?thesis by (rule matches_sound)
qed

lemma has_url_doi_exec: "has_url_doi inp \<longleftrightarrow> exec doiRegex inp \<noteq> None"
proof -
  have "has_url_doi inp \<longleftrightarrow> (\<exists>pre t. inp = pre @ t \<and> matches doiRegex t \<noteq> [])"
  proof
    assume "has_url_doi inp"
    then obtain pre u d post where t: "inp = pre @ u @ d @ post" "resolver_prefix u" "doi_shaped d"
      unfolding has_url_doi_def by blast
    then have "(u @ d, Some d) \<in> langc doiRegex" unfolding langc_doiRegex by blast
    then have "matches doiRegex ((u @ d) @ post) \<noteq> []" by (rule matches_nonempty)
    moreover have "inp = pre @ ((u @ d) @ post)" using t(1) by simp
    ultimately show "\<exists>pre t. inp = pre @ t \<and> matches doiRegex t \<noteq> []" by blast
  next
    assume "\<exists>pre t. inp = pre @ t \<and> matches doiRegex t \<noteq> []"
    then obtain pre t where t: "inp = pre @ t" "matches doiRegex t \<noteq> []" by blast
    from matches_hd [OF t(2)] obtain w rest c where w: "t = w @ rest" "(w, c) \<in> langc doiRegex"
      by blast
    from w(2) obtain u d where u: "w = u @ d" "resolver_prefix u" "doi_shaped d"
      unfolding langc_doiRegex by blast
    have "inp = pre @ u @ d @ rest" using t(1) w(1) u(1) by simp
    then show "has_url_doi inp" unfolding has_url_doi_def using u(2,3) by blast
  qed
  then show ?thesis unfolding exec_None by simp
qed

lemma has_bare_doi_exec: "has_bare_doi inp \<longleftrightarrow> exec directDoiRegex inp \<noteq> None"
proof -
  have "has_bare_doi inp \<longleftrightarrow> (\<exists>pre t. inp = pre @ t \<and> matches directDoiRegex t \<noteq> [])"
  proof
    assume "has_bare_doi inp"
    then obtain pre d post where t: "inp = pre @ d @ post" "doi_shaped d"
      unfolding has_bare_doi_def by blast
    then have "(d, Some d) \<in> langc directDoiRegex" unfolding langc_directDoiRegex by blast
    then have "matches directDoiRegex (d @ post) \<noteq> []" by (rule matches_nonempty)
    then show "\<exists>pre t. inp = pre @ t \<and> matches directDoiRegex t \<noteq> []" using t(1) by blast
  next
    assume "\<exists>pre t. inp = pre @ t \<and> matches directDoiRegex t \<noteq> []"
    then obtain pre t where t: "inp = pre @ t" "matches directDoiRegex t \<noteq> []" by blast
    from matches_hd [OF t(2)] obtain w rest c where w: "t = w @ rest" "(w, c) \<in> langc directDoiRegex"
      by blast
    from w(2) have "doi_shaped w" unfolding langc_directDoiRegex by blast
    moreover have "inp = pre @ w @ rest" using t(1) w(1) by simp
    ultimately show "has_bare_doi inp" unfolding has_bare_doi_def by blast
  qed
  then show ?thesis unfolding exec_None by simp
qed

lemma exec_doiRegex_Some:
  assumes "exec doiRegex inp = Some g"
  shows "\<exists>n d. g = Some d \<and> url_doi_at inp n d \<and>
           (\<forall>pre u e post. inp = pre @ u @ e @ post \<and> resolver_prefix u \<and> doi_shaped e
              \<longrightarrow> n \<le> length pre)"
proof -
  from exec_Some [OF assms] obtain pre t where p: "inp = pre @ t" "matches doiRegex t \<noteq> []"
      "g = fst (hd (matches doiRegex t))"
      "\<forall>pre' t'. inp = pre' @ t' \<and> length pre' < length pre \<longrightarrow> matches doiRegex t' = []"
    by blast
  define rest where "rest = snd (hd (matches doiRegex t))"
  from matches_hd [OF p(2)] obtain w where w: "t = w @ rest" "(w, g) \<in> langc doiRegex"
    unfolding rest_def p(3) by blast
  from w(2) obtain u d where u: "w = u @ d" "resolver_prefix u" "doi_shaped d" "g = Some d"
    unfolding langc_doiRegex by blast
  have e: "ends_here rest" using stops_doiRegex p(2) unfolding stops_def rest_def by blast
  have "inp = pre @ u @ d @ rest" using p(1) w(1) u(1) by simp
  then have at: "url_doi_at inp (length pre) d"
    unfolding url_doi_at_def using u(2,3) e by blast
  have "length pre \<le> length pre'"
    if "inp = pre' @ u' @ e' @ post'" "resolver_prefix u'" "doi_shaped e'" for pre' u' e' post'
  proof (rule ccontr)
    assume "\<not> length pre \<le> length pre'"
    then have "length pre' < length pre" by simp
    then have "matches doiRegex (u' @ e' @ post') = []" using p(4) that(1) by blast
    moreover have "(u' @ e', Some e') \<in> langc doiRegex"
      unfolding langc_doiRegex using that(2,3) by blast
    then have "matches doiRegex ((u' @ e') @ post') \<noteq> []" by (rule matches_nonempty)
    ultimately show False by simp
  qed
  then show ?thesis using u(4) at by blast
qed

lemma exec_directDoiRegex_Some:
  assumes "exec directDoiRegex inp = Some g"
  shows "\<exists>n d. g = Some d \<and> bare_doi_at inp n d \<and>
           (\<forall>pre e post. inp = pre @ e @ post \<and> doi_shaped e \<longrightarrow> n \<le> length pre)"
proof -
  from exec_Some [OF assms] obtain pre t where p: "inp = pre @ t" "matches directDoiRegex t \<noteq> []"
      "g = fst (hd (matches directDoiRegex t))"
      "\<forall>pre' t'. inp = pre' @ t' \<and> length pre' < length pre \<longrightarrow> matches directDoiRegex t' = []"
    by blast
  define rest where "rest = snd (hd (matches directDoiRegex t))"
  from matches_hd [OF p(2)] obtain w where w: "t = w @ rest" "(w, g) \<in> langc directDoiRegex"
    unfolding rest_def p(3) by blast
  from w(2) have d: "doi_shaped w" "g = Some w" unfolding langc_directDoiRegex by blast+
  have e: "ends_here rest"
    using stops_directDoiRegex p(2) unfolding stops_def rest_def by blast
  have "inp = pre @ w @ rest" using p(1) w(1) by simp
  then have at: "bare_doi_at inp (length pre) w"
    unfolding bare_doi_at_def using d(1) e by blast
  have "length pre \<le> length pre'"
    if "inp = pre' @ e' @ post'" "doi_shaped e'" for pre' e' post'
  proof (rule ccontr)
    assume "\<not> length pre \<le> length pre'"
    then have "length pre' < length pre" by simp
    then have "matches directDoiRegex (e' @ post') = []" using p(4) that(1) by blast
    moreover have "(e', Some e') \<in> langc directDoiRegex"
      unfolding langc_directDoiRegex using that(2) by blast
    then have "matches directDoiRegex (e' @ post') \<noteq> []" by (rule matches_nonempty)
    ultimately show False by simp
  qed
  then show ?thesis using d(2) at by blast
qed

text \<open>A resolver URL in the form of the specification puts \<^verbatim>\<open>/10.\<close> into the text.\<close>

lemma has_spec_url_doi_slash:
  assumes "has_spec_url_doi inp"
  shows "exec (Lits ''/10.'') inp \<noteq> None"
proof -
  from assms obtain pre u d post where t: "inp = pre @ u @ d @ post" "spec_resolver_prefix u"
      "doi_shaped d"
    unfolding has_spec_url_doi_def by blast
  from t(2) obtain u0 where u: "u = u0 @ ''/''"
    unfolding spec_resolver_prefix_def by auto
  from t(3) obtain r where d: "d = ''10.'' @ r" unfolding doi_shaped_def by blast
  have "inp = (pre @ u0) @ ''/10.'' @ (r @ post)" using t(1) u d by simp
  moreover have "lits_ok ''/10.'' (''/10.'' @ (r @ post))"
    unfolding lits_ok_iff by blast
  then have "matches (Lits ''/10.'') (''/10.'' @ (r @ post)) \<noteq> []" by simp
  ultimately show ?thesis unfolding exec_None by blast
qed

subsection \<open>The badge table on other labels\<close>

text \<open>
  On every string that is not one of the inherited names the mapper does what its
  documentation says: the badge for the five labels, compared case-sensitively, and
  \<^verbatim>\<open>null\<close> for anything else, the empty string included.
\<close>

lemma mapClassificationToBadge_table:
  "s \<notin> set object_prototype_names \<Longrightarrow>
     mapClassificationToBadge (Str s) =
       Inr (if s = ''Paradigm Shift'' then Str ''paradigm-shift''
            else if s = ''Model Revolution'' then Str ''model-revolution''
            else if s = ''Normal Science'' then Str ''normal-science''
            else if s = ''Model Crisis'' then Str ''model-crisis''
            else if s = ''Model Drift'' then Str ''model-drift''
            else Null)"
  by (simp add: mapClassificationToBadge_def mapping_def js_or_def)

lemma mapClassificationToBadge_inherited:
  "s \<in> set object_prototype_names \<Longrightarrow>
     mapClassificationToBadge (Str s) = Inr (ProtoMember s)"
  by (auto simp: mapClassificationToBadge_def mapping_def js_or_def object_prototype_names_def)

section \<open>Claims\<close>

lemmas sample_defs =
  sample_env_def ev_offline_def ev_nokey_def ev_null_body_def ev_untitled_def ev_nopdf_def
  ev_paper_def ev_flaky_def ev_half_def ev_paper_nokey_def w_spent_def initial_world_def
  initial_cache_def paper_body_def nopdf_body_def untitled_body_def label_body_def
  paper_meta_def

lemmas pipeline_defs =
  processDoi_def processDoi_try_def resolveMetadata_def fetchCrossrefMetadata_def
  parse_work_def work_title_def work_authors_def work_pdfUrl_def work_journal_def
  work_year_def classifyPaper_def attachClassification_def saveCache_def key_missing_def
  mapClassificationToBadge_def mapping_def object_prototype_names_def to_string_def
  js_or_def get_opt_def index0_opt_def Let_def

text \<open>
  C1. When the credit counter has reached the configured limit, or no API key is
  configured, \<^verbatim>\<open>classifyPaper\<close> fails and returns the state it was given: no request
  was recorded and the counter was not incremented. The limit is tested first, so the
  error is the credit-limit error whenever the limit is reached and the configuration
  error otherwise.
\<close>

theorem classifyPaper_preconditions:
  assumes "CREDIT_LIMIT ev \<le> creditsUsed (cache w) \<or> key_missing ev"
  shows "classifyPaper ev ttl pdf w =
           (Inl (if CREDIT_LIMIT ev \<le> creditsUsed (cache w) then CreditLimitReached
                 else ApiKeyNotConfigured), w)"
  using assms by (auto simp: classifyPaper_def)

theorem classifyPaper_preconditions_witness:
  "(CREDIT_LIMIT ev_offline \<le> creditsUsed (cache w_spent) \<or> key_missing ev_offline) \<and>
   classifyPaper ev_offline (Str ''A Paper'') Undefined w_spent = (Inl CreditLimitReached, w_spent) \<and>
   (CREDIT_LIMIT ev_nokey \<le> creditsUsed (cache (initial_world ev_nokey)) \<or> key_missing ev_nokey) \<and>
   classifyPaper ev_nokey (Str ''A Paper'') Undefined (initial_world ev_nokey) =
     (Inl ApiKeyNotConfigured, initial_world ev_nokey)"
proof -
  have a: "CREDIT_LIMIT ev_offline \<le> creditsUsed (cache w_spent) \<or> key_missing ev_offline"
    by (simp add: sample_defs)
  have b: "CREDIT_LIMIT ev_nokey \<le> creditsUsed (cache (initial_world ev_nokey)) \<or> key_missing ev_nokey"
    by (simp add: sample_defs key_missing_def)
  have c: "CREDIT_LIMIT ev_offline \<le> creditsUsed (cache w_spent)"
    by (simp add: sample_defs)
  have d: "\<not> CREDIT_LIMIT ev_nokey \<le> creditsUsed (cache (initial_world ev_nokey))"
    by (simp add: sample_defs)
  show ?thesis
    using a b classifyPaper_preconditions [OF a, of "Str ''A Paper''" Undefined]
      classifyPaper_preconditions [OF b, of "Str ''A Paper''" Undefined] c d
    by simp
qed

text \<open>
  C2. \<^verbatim>\<open>processDoi\<close> always returns a value, never an error, and every internal
  failure ends in \<^verbatim>\<open>null\<close>: a failed metadata fetch, whatever its error (status,
  missing work record, transport error); a failed classification, whatever its error;
  in particular a reached credit limit and a missing API key; and a stored label that
  the mapper cannot convert. Whatever happens, the value returned is the badge of the
  classification that the resulting cache holds for the DOI, and \<^verbatim>\<open>null\<close> when it
  holds none, so that no failure yields a badge.
\<close>

theorem processDoi_never_throws:
  "(\<exists>v. fst (processDoi ev d w) = Inr v) \<and>
   (map_of (entries (cache w)) d = None \<longrightarrow> fetchCrossrefMetadata ev d w = (Inl e, w1) \<longrightarrow>
      processDoi ev d w = (Inr Null, w1)) \<and>
   (Option.bind (map_of (entries (cache w)) d) classification = None \<longrightarrow>
      resolveMetadata ev d w = (Inr m, w1) \<longrightarrow> truthy (title m) \<longrightarrow> truthy (pdfUrl m) \<longrightarrow>
      classifyPaper ev (title m) (pdfUrl m) w1 = (Inl e, w2) \<longrightarrow>
      processDoi ev d w = (Inr Null, w2)) \<and>
   (Option.bind (map_of (entries (cache w)) d) classification = None \<longrightarrow>
      resolveMetadata ev d w = (Inr m, w1) \<longrightarrow> truthy (title m) \<longrightarrow> truthy (pdfUrl m) \<longrightarrow>
      CREDIT_LIMIT ev \<le> creditsUsed (cache w1) \<or> key_missing ev \<longrightarrow>
      processDoi ev d w = (Inr Null, w1)) \<and>
   (Option.bind (map_of (entries (cache w)) d) classification = Some c \<longrightarrow>
      mapClassificationToBadge (class_label c) = Inl e \<longrightarrow>
      processDoi ev d w = (Inr Null, w)) \<and>
   (processDoi ev d w = (Inr v, w') \<longrightarrow> v = cached_badge w' d)"
proof (intro conjI impI)
  show "\<exists>v. fst (processDoi ev d w) = Inr v"
    by (auto simp: processDoi_def split: prod.splits sum.splits)
next
  assume n: "map_of (entries (cache w)) d = None" and f: "fetchCrossrefMetadata ev d w = (Inl e, w1)"
  have "resolveMetadata ev d w = (Inl e, w1)" using n f by (simp add: resolveMetadata_def)
  then show "processDoi ev d w = (Inr Null, w1)"
    using n by (simp add: processDoi_def processDoi_try_uncached)
next
  assume "Option.bind (map_of (entries (cache w)) d) classification = None"
    and "resolveMetadata ev d w = (Inr m, w1)" and "truthy (title m)" and "truthy (pdfUrl m)"
    and "classifyPaper ev (title m) (pdfUrl m) w1 = (Inl e, w2)"
  then show "processDoi ev d w = (Inr Null, w2)"
    by (simp add: processDoi_def processDoi_try_uncached)
next
  assume n: "Option.bind (map_of (entries (cache w)) d) classification = None"
    and r: "resolveMetadata ev d w = (Inr m, w1)" and t: "truthy (title m)" "truthy (pdfUrl m)"
    and g: "CREDIT_LIMIT ev \<le> creditsUsed (cache w1) \<or> key_missing ev"
  from classifyPaper_guard [OF g, of "title m" "pdfUrl m"]
  obtain er where "classifyPaper ev (title m) (pdfUrl m) w1 = (Inl er, w1)" by blast
  then show "processDoi ev d w = (Inr Null, w1)"
    using n r t by (simp add: processDoi_def processDoi_try_uncached)
next
  assume s: "Option.bind (map_of (entries (cache w)) d) classification = Some c"
    and b: "mapClassificationToBadge (class_label c) = Inl e"
  show "processDoi ev d w = (Inr Null, w)" using processDoi_cached [OF s, of ev] b by simp
next
  assume "processDoi ev d w = (Inr v, w')"
  then show "v = cached_badge w' d" using processDoi_result by blast
qed

theorem processDoi_never_throws_witness:
  "fetchCrossrefMetadata ev_offline ''10.1000/x'' (initial_world ev_offline) =
     (Inl FetchRejected, snd (fetchCrossrefMetadata ev_offline ''10.1000/x'' (initial_world ev_offline))) \<and>
   processDoi ev_offline ''10.1000/x'' (initial_world ev_offline) =
     (Inr Null, snd (fetchCrossrefMetadata ev_offline ''10.1000/x'' (initial_world ev_offline))) \<and>
   fst (resolveMetadata ev_flaky ''10.1000/x'' (initial_world ev_flaky)) = Inr paper_meta \<and>
   fst (classifyPaper ev_flaky (Str ''A Paper'') (Str ''https://example.org/a.pdf'')
          (snd (resolveMetadata ev_flaky ''10.1000/x'' (initial_world ev_flaky)))) =
     Inl (Kgx3Status 500) \<and>
   fst (processDoi ev_flaky ''10.1000/x'' (initial_world ev_flaky)) = Inr Null \<and>
   fst (resolveMetadata ev_paper ''10.1000/x'' w_spent) = Inr paper_meta \<and>
   CREDIT_LIMIT ev_paper \<le> creditsUsed (cache (snd (resolveMetadata ev_paper ''10.1000/x'' w_spent))) \<and>
   fst (processDoi ev_paper ''10.1000/x'' w_spent) = Inr Null \<and>
   fst (resolveMetadata ev_paper_nokey ''10.1000/x'' (initial_world ev_paper_nokey)) = Inr paper_meta \<and>
   key_missing ev_paper_nokey \<and>
   fst (processDoi ev_paper_nokey ''10.1000/x'' (initial_world ev_paper_nokey)) = Inr Null"
proof -
  let ?d = "''10.1000/x''"
  have n: "map_of (entries (cache (initial_world ev))) ?d = None" for ev
    by (simp add: initial_world_def initial_cache_def)
  have n': "Option.bind (map_of (entries (cache (initial_world ev))) ?d) classification = None" for ev
    by (simp add: initial_world_def initial_cache_def)
  have ns: "Option.bind (map_of (entries (cache w_spent)) ?d) classification = None"
    by (simp add: w_spent_def)
  have t: "truthy (title paper_meta)" "truthy (pdfUrl paper_meta)"
    "title paper_meta = Str ''A Paper''" "pdfUrl paper_meta = Str ''https://example.org/a.pdf''"
    by (simp_all add: paper_meta_def)
  \<comment> \<open>a transport error while fetching the metadata\<close>
  have a1: "fetchCrossrefMetadata ev_offline ?d (initial_world ev_offline) =
      (Inl FetchRejected, snd (fetchCrossrefMetadata ev_offline ?d (initial_world ev_offline)))"
    by (simp add: sample_defs pipeline_defs)
  note a2 = processDoi_never_throws [THEN conjunct2, THEN conjunct1, rule_format, OF n a1]
  \<comment> \<open>a classification that fails with status 500\<close>
  have b1: "fst (resolveMetadata ev_flaky ?d (initial_world ev_flaky)) = Inr paper_meta"
    by (simp add: sample_defs pipeline_defs)
  then have b1': "resolveMetadata ev_flaky ?d (initial_world ev_flaky) =
      (Inr paper_meta, snd (resolveMetadata ev_flaky ?d (initial_world ev_flaky)))"
    by (simp add: prod_eq_iff)
  have b2: "fst (classifyPaper ev_flaky (Str ''A Paper'') (Str ''https://example.org/a.pdf'')
          (snd (resolveMetadata ev_flaky ?d (initial_world ev_flaky)))) = Inl (Kgx3Status 500)"
    by (simp add: sample_defs pipeline_defs)
  then have b2': "classifyPaper ev_flaky (title paper_meta) (pdfUrl paper_meta)
          (snd (resolveMetadata ev_flaky ?d (initial_world ev_flaky))) =
      (Inl (Kgx3Status 500),
       snd (classifyPaper ev_flaky (title paper_meta) (pdfUrl paper_meta)
          (snd (resolveMetadata ev_flaky ?d (initial_world ev_flaky)))))"
    by (simp add: prod_eq_iff t)
  note b3 = processDoi_never_throws [THEN conjunct2, THEN conjunct2, THEN conjunct1, rule_format,
      OF n' b1' t(1) t(2) b2']
  \<comment> \<open>a reached credit limit\<close>
  have c1: "fst (resolveMetadata ev_paper ?d w_spent) = Inr paper_meta"
    by (simp add: sample_defs pipeline_defs)
  then have c1': "resolveMetadata ev_paper ?d w_spent =
      (Inr paper_meta, snd (resolveMetadata ev_paper ?d w_spent))"
    by (simp add: prod_eq_iff)
  have c2: "CREDIT_LIMIT ev_paper \<le> creditsUsed (cache (snd (resolveMetadata ev_paper ?d w_spent)))"
    by (simp add: sample_defs pipeline_defs)
  note c3 = processDoi_never_throws [THEN conjunct2, THEN conjunct2, THEN conjunct2, THEN conjunct1,
      rule_format, OF ns c1' t(1) t(2) disjI1 [OF c2]]
  \<comment> \<open>a missing API key\<close>
  have d1: "fst (resolveMetadata ev_paper_nokey ?d (initial_world ev_paper_nokey)) = Inr paper_meta"
    by (simp add: sample_defs pipeline_defs)
  then have d1': "resolveMetadata ev_paper_nokey ?d (initial_world ev_paper_nokey) =
      (Inr paper_meta, snd (resolveMetadata ev_paper_nokey ?d (initial_world ev_paper_nokey)))"
    by (simp add: prod_eq_iff)
  have d2: "key_missing ev_paper_nokey" by (simp add: sample_defs key_missing_def)
  note d3 = processDoi_never_throws [THEN conjunct2, THEN conjunct2, THEN conjunct2, THEN conjunct1,
      rule_format, OF n' d1' t(1) t(2) disjI2 [OF d2]]
  show ?thesis using a1 a2 b1 b2 b3 c1 c2 c3 d1 d2 d3 by simp
qed

text \<open>
  C3. Whenever the first of two successive calls leaves the cache warm for the DOI, the
  second call returns what the first returned and leaves the state as it was, so that
  it makes no network call. Every first call that ends without an internal error leaves
  the cache warm, and is therefore repeated from the cache. In particular, when the
  entry for the DOI already carries a classification, \<^verbatim>\<open>processDoi\<close> returns the
  badge mapped from it (and \<^verbatim>\<open>null\<close> if the mapper cannot convert the stored label)
  and leaves the state, and so the network, untouched.
\<close>

theorem processDoi_warm_idempotent:
  "(warm ev (snd (processDoi ev d w)) d \<longrightarrow>
      processDoi ev d (snd (processDoi ev d w)) =
        (fst (processDoi ev d w), snd (processDoi ev d w)) \<and>
      net (snd (processDoi ev d (snd (processDoi ev d w)))) = net (snd (processDoi ev d w))) \<and>
   (processDoi_try ev d w = (Inr v, w1) \<longrightarrow>
      warm ev w1 d \<and> processDoi ev d w = (Inr v, w1) \<and> processDoi ev d w1 = (Inr v, w1)) \<and>
   (map_of (entries (cache w)) d = Some e \<and> classification e = Some c \<longrightarrow>
      processDoi ev d w = (Inr (badge_or_null (class_label c)), w))"
proof (intro conjI impI)
  obtain r1 s1 where p1: "processDoi ev d w = (r1, s1)" by (cases "processDoi ev d w")
  assume "warm ev (snd (processDoi ev d w)) d"
  then have ws: "warm ev s1 d" using p1 by simp
  have "processDoi ev d s1 = (r1, s1)"
    using processDoi_warm [OF ws] processDoi_result [OF p1] by simp
  then show "processDoi ev d (snd (processDoi ev d w)) =
      (fst (processDoi ev d w), snd (processDoi ev d w))"
    and "net (snd (processDoi ev d (snd (processDoi ev d w)))) = net (snd (processDoi ev d w))"
    using p1 by simp_all
next
  assume t: "processDoi_try ev d w = (Inr v, w1)"
  show wm: "warm ev w1 d" using t by (rule processDoi_try_Inr_warm)
  show p: "processDoi ev d w = (Inr v, w1)" using t by (simp add: processDoi_def)
  show "processDoi ev d w1 = (Inr v, w1)"
    using processDoi_warm [OF wm] processDoi_result [OF p] by simp
next
  assume a: "map_of (entries (cache w)) d = Some e \<and> classification e = Some c"
  then have "Option.bind (map_of (entries (cache w)) d) classification = Some c" by simp
  then show "processDoi ev d w = (Inr (badge_or_null (class_label c)), w)"
    by (rule processDoi_cached)
qed

theorem processDoi_warm_idempotent_witness:
  "warm ev_paper (snd (processDoi ev_paper ''10.1000/x'' (initial_world ev_paper))) ''10.1000/x'' \<and>
   fst (processDoi ev_paper ''10.1000/x'' (initial_world ev_paper)) = Inr (Str ''normal-science'') \<and>
   fst (processDoi_try ev_paper ''10.1000/x'' (initial_world ev_paper)) = Inr (Str ''normal-science'') \<and>
   processDoi ev_paper ''10.1000/x'' (snd (processDoi ev_paper ''10.1000/x'' (initial_world ev_paper))) =
     (Inr (Str ''normal-science''), snd (processDoi ev_paper ''10.1000/x'' (initial_world ev_paper))) \<and>
   net (snd (processDoi ev_paper ''10.1000/x''
          (snd (processDoi ev_paper ''10.1000/x'' (initial_world ev_paper))))) =
     [CrossrefGet ''10.1000/x'', Kgx3Post (Str ''A Paper'') (Str ''https://example.org/a.pdf'')]"
proof -
  have a: "warm ev_paper (snd (processDoi ev_paper ''10.1000/x'' (initial_world ev_paper))) ''10.1000/x''"
    by (simp add: warm_def sample_defs pipeline_defs)
  have b: "fst (processDoi ev_paper ''10.1000/x'' (initial_world ev_paper)) = Inr (Str ''normal-science'')"
    by (simp add: sample_defs pipeline_defs)
  have c: "fst (processDoi_try ev_paper ''10.1000/x'' (initial_world ev_paper)) =
      Inr (Str ''normal-science'')"
    by (simp add: sample_defs pipeline_defs)
  have n: "net (snd (processDoi ev_paper ''10.1000/x'' (initial_world ev_paper))) =
      [CrossrefGet ''10.1000/x'', Kgx3Post (Str ''A Paper'') (Str ''https://example.org/a.pdf'')]"
    by (simp add: sample_defs pipeline_defs)
  show ?thesis
    using a b c n
      processDoi_warm_idempotent [of ev_paper "''10.1000/x''" "initial_world ev_paper",
        THEN conjunct1]
    by simp
qed




text \<open>
  C5. In a state where every classified entry has a title and a PDF link (the initial
  cache is such a state and the operations keep it so), if the metadata resolved for a
  DOI, cached or freshly fetched, has no PDF URL, then \<^verbatim>\<open>processDoi\<close> returns
  \<^verbatim>\<open>null\<close> in the state that resolving the metadata left: the classification client
  did not run, no request was sent to it, and the credit counter is unchanged.
\<close>

theorem processDoi_no_pdf_conserves_credit:
  assumes "cache_ok w" and "resolveMetadata ev d w = (Inr m, w1)" and "\<not> truthy (pdfUrl m)"
  shows "processDoi ev d w = (Inr Null, w1) \<and>
         creditsUsed (cache w1) = creditsUsed (cache w) \<and>
         kgx3_calls w1 = kgx3_calls w"
proof -
  have "Option.bind (map_of (entries (cache w)) d) classification = None"
  proof (cases "map_of (entries (cache w)) d")
    case None
    then show ?thesis by simp
  next
    case (Some e)
    then have "m = metadata e" using assms(2) by (simp add: resolveMetadata_def)
    then show ?thesis using cache_ok_lookup [OF assms(1) Some] assms(3) Some
      by (auto simp: entry_ok_def)
  qed
  then have "processDoi ev d w = (Inr Null, w1)" using assms(2,3)
    by (simp add: processDoi_def processDoi_try_def)
  then show ?thesis
    using resolveMetadata_credits [OF assms(2)] resolveMetadata_kgx3 [OF assms(2)] by simp
qed

theorem processDoi_no_pdf_conserves_credit_witness:
  "cache_ok (initial_world ev_nopdf) \<and>
   fst (resolveMetadata ev_nopdf ''10.1000/x'' (initial_world ev_nopdf)) =
     Inr \<lparr>title = Str ''A Paper'', pdfUrl = Undefined, authors = Arr [],
          journal = Str [], year = Undefined\<rparr> \<and>
   \<not> truthy Undefined \<and>
   fst (processDoi ev_nopdf ''10.1000/x'' (initial_world ev_nopdf)) = Inr Null \<and>
   creditsUsed (cache (snd (processDoi ev_nopdf ''10.1000/x'' (initial_world ev_nopdf)))) = 0"
proof -
  obtain w1 where r: "resolveMetadata ev_nopdf ''10.1000/x'' (initial_world ev_nopdf) =
      (Inr \<lparr>title = Str ''A Paper'', pdfUrl = Undefined, authors = Arr [],
            journal = Str [], year = Undefined\<rparr>, w1)"
    by (simp add: sample_defs pipeline_defs)
  have a: "cache_ok (initial_world ev_nopdf)"
    by (simp add: cache_ok_def sample_defs)
  have z: "creditsUsed (cache (initial_world ev_nopdf)) = 0"
    by (simp add: sample_defs)
  show ?thesis
    using a r z processDoi_no_pdf_conserves_credit [OF a r] by simp
qed

text \<open>
  C6 fails on the code at the names an object literal inherits: for the label
  \<^verbatim>\<open>constructor\<close> the table read yields the inherited member, which is truthy, and
  the function returns it instead of \<^verbatim>\<open>null\<close>.
\<close>

theorem mapClassificationToBadge_inherited_key:
  "mapClassificationToBadge (Str ''constructor'') = Inr (ProtoMember ''constructor'')"
  by (simp add: mapClassificationToBadge_def mapping_def object_prototype_names_def js_or_def)

text \<open>
  C7, as stated, fails: the expression makes the slash after \<^verbatim>\<open>doi.org\<close> optional.
  In the first text the only resolver URL in the form of the specification carries
  \<^verbatim>\<open>10.2222/B\<close>, and the result is the DOI that follows the earlier \<^verbatim>\<open>doi.org\<close>
  without a slash. The second text has no resolver URL of that form and its first bare
  DOI is \<^verbatim>\<open>10.9999/Z\<close>, and the result is again the DOI after \<^verbatim>\<open>doi.org\<close>.
\<close>

theorem extractDoi_slashless_host_wins:
  "''doi.org10.1111/A https://doi.org/10.2222/B'' =
     ''doi.org10.1111/A '' @ ''https://doi.org/'' @ ''10.2222/B'' @ [] \<and>
   spec_resolver_prefix ''https://doi.org/'' \<and> doi_shaped ''10.2222/B'' \<and>
   has_spec_url_doi ''doi.org10.1111/A https://doi.org/10.2222/B'' \<and>
   extractDoi ''doi.org10.1111/A https://doi.org/10.2222/B'' = Inr (Some ''10.1111/a'') \<and>
   \<not> has_spec_url_doi ''10.9999/Z doi.org10.1111/A'' \<and>
   ''10.9999/Z doi.org10.1111/A'' = [] @ ''10.9999/Z'' @ '' doi.org10.1111/A'' \<and>
   doi_shaped ''10.9999/Z'' \<and>
   extractDoi ''10.9999/Z doi.org10.1111/A'' = Inr (Some ''10.1111/a'')"
proof -
  have p: "spec_resolver_prefix ''https://doi.org/''" by (simp add: spec_resolver_prefix_def)
  have d: "doi_shaped ''10.2222/B''"
    unfolding doi_shaped_def
    by (rule exI [of _ "''2222''"], rule exI [of _ "''B''"])
       (simp add: is_digit_def is_upper_def)
  have e: "''doi.org10.1111/A https://doi.org/10.2222/B'' =
     ''doi.org10.1111/A '' @ ''https://doi.org/'' @ ''10.2222/B'' @ []" by simp
  have h: "has_spec_url_doi ''doi.org10.1111/A https://doi.org/10.2222/B''"
    unfolding has_spec_url_doi_def using e p d by blast
  have r1: "extractDoi ''doi.org10.1111/A https://doi.org/10.2222/B'' = Inr (Some ''10.1111/a'')"
    by code_simp
  have "exec (Lits ''/10.'') ''10.9999/Z doi.org10.1111/A'' = None" by code_simp
  then have n: "\<not> has_spec_url_doi ''10.9999/Z doi.org10.1111/A''"
    using has_spec_url_doi_slash by blast
  have d2: "doi_shaped ''10.9999/Z''"
    unfolding doi_shaped_def
    by (rule exI [of _ "''9999''"], rule exI [of _ "''Z''"])
       (simp add: is_digit_def is_upper_def)
  have r2: "extractDoi ''10.9999/Z doi.org10.1111/A'' = Inr (Some ''10.1111/a'')" by code_simp
  show ?thesis using p d e h r1 n d2 r2 by simp
qed

text \<open>
  C7, amended. Take a resolver URL to be what the expression accepts: a DOI directly
  after \<^verbatim>\<open>doi.org\<close>, with or without the slash between them, after an optional
  \<^verbatim>\<open>http://\<close> or \<^verbatim>\<open>https://\<close> and an optional \<^verbatim>\<open>dx.\<close>, in either case of the
  letters. If the text contains one, \<^verbatim>\<open>extractDoi\<close> returns, lower-cased, the DOI of
  the leftmost one, taken as far as the suffix goes, whatever bare DOI stands before it.
  If it contains none but contains a bare DOI, the result is the leftmost bare DOI,
  taken as far as its suffix goes, lower-cased. If it contains neither, the result is
  the absence value. The function never throws.
\<close>

theorem extractDoi_priority:
  "(has_url_doi inp \<longrightarrow>
      (\<exists>n d. extractDoi inp = Inr (Some (toLowerCase d)) \<and> url_doi_at inp n d \<and>
         (\<forall>pre u e post. inp = pre @ u @ e @ post \<and> resolver_prefix u \<and> doi_shaped e
            \<longrightarrow> n \<le> length pre))) \<and>
   (\<not> has_url_doi inp \<and> has_bare_doi inp \<longrightarrow>
      (\<exists>n d. extractDoi inp = Inr (Some (toLowerCase d)) \<and> bare_doi_at inp n d \<and>
         (\<forall>pre e post. inp = pre @ e @ post \<and> doi_shaped e \<longrightarrow> n \<le> length pre))) \<and>
   (\<not> has_url_doi inp \<and> \<not> has_bare_doi inp \<longrightarrow> extractDoi inp = Inr None)"
proof (intro conjI impI)
  assume "has_url_doi inp"
  then obtain g where g: "exec doiRegex inp = Some g" using has_url_doi_exec by auto
  from exec_doiRegex_Some [OF g] obtain n d where d: "g = Some d" "url_doi_at inp n d"
      "\<forall>pre u e post. inp = pre @ u @ e @ post \<and> resolver_prefix u \<and> doi_shaped e
         \<longrightarrow> n \<le> length pre"
    by blast
  have "extractDoi inp = Inr (Some (toLowerCase d))"
    using g d(1) by (simp add: extractDoi_def group1_lower_def)
  then show "\<exists>n d. extractDoi inp = Inr (Some (toLowerCase d)) \<and> url_doi_at inp n d \<and>
         (\<forall>pre u e post. inp = pre @ u @ e @ post \<and> resolver_prefix u \<and> doi_shaped e
            \<longrightarrow> n \<le> length pre)"
    using d(2,3) by blast
next
  assume a: "\<not> has_url_doi inp \<and> has_bare_doi inp"
  then have u: "exec doiRegex inp = None" using has_url_doi_exec by auto
  from a obtain g where g: "exec directDoiRegex inp = Some g" using has_bare_doi_exec by auto
  from exec_directDoiRegex_Some [OF g] obtain n d where d: "g = Some d" "bare_doi_at inp n d"
      "\<forall>pre e post. inp = pre @ e @ post \<and> doi_shaped e \<longrightarrow> n \<le> length pre"
    by blast
  have "extractDoi inp = Inr (Some (toLowerCase d))"
    using u g d(1) by (simp add: extractDoi_def group1_lower_def)
  then show "\<exists>n d. extractDoi inp = Inr (Some (toLowerCase d)) \<and> bare_doi_at inp n d \<and>
         (\<forall>pre e post. inp = pre @ e @ post \<and> doi_shaped e \<longrightarrow> n \<le> length pre)"
    using d(2,3) by blast
next
  assume a: "\<not> has_url_doi inp \<and> \<not> has_bare_doi inp"
  then have "exec doiRegex inp = None" "exec directDoiRegex inp = None"
    using has_url_doi_exec has_bare_doi_exec by auto
  then show "extractDoi inp = Inr None" by (simp add: extractDoi_def)
qed

theorem extractDoi_priority_witness:
  "has_url_doi ''10.1234/AB https://doi.org/10.5678/Xy'' \<and>
   extractDoi ''10.1234/AB https://doi.org/10.5678/Xy'' = Inr (Some ''10.5678/xy'') \<and>
   \<not> has_url_doi ''see 10.1016/J.c'' \<and> has_bare_doi ''see 10.1016/J.c'' \<and>
   extractDoi ''see 10.1016/J.c'' = Inr (Some ''10.1016/j.c'') \<and>
   \<not> has_url_doi ''no doi'' \<and> \<not> has_bare_doi ''no doi'' \<and>
   extractDoi ''no doi'' = Inr None"
proof -
  have a: "has_url_doi ''10.1234/AB https://doi.org/10.5678/Xy''"
    unfolding has_url_doi_exec by code_simp
  have a': "extractDoi ''10.1234/AB https://doi.org/10.5678/Xy'' = Inr (Some ''10.5678/xy'')"
    by code_simp
  have b: "\<not> has_url_doi ''see 10.1016/J.c''" unfolding has_url_doi_exec by code_simp
  have b': "has_bare_doi ''see 10.1016/J.c''" unfolding has_bare_doi_exec by code_simp
  have b'': "extractDoi ''see 10.1016/J.c'' = Inr (Some ''10.1016/j.c'')" by code_simp
  have c: "\<not> has_url_doi ''no doi''" unfolding has_url_doi_exec by code_simp
  have c': "\<not> has_bare_doi ''no doi''" unfolding has_bare_doi_exec by code_simp
  show ?thesis
    using a a' b b' b'' c c'
      extractDoi_priority [of "''10.1234/AB https://doi.org/10.5678/Xy''"]
      extractDoi_priority [of "''see 10.1016/J.c''"]
      extractDoi_priority [of "''no doi''"]
    by simp
qed

text \<open>
  C8 fails on the code when the registry sends an empty title list: the title of the
  returned metadata is \<^verbatim>\<open>undefined\<close>, not the empty string.
\<close>

theorem fetchCrossrefMetadata_empty_title_list:
  "fst (fetchCrossrefMetadata ev_untitled ''10.1000/x'' (initial_world ev_untitled)) =
     Inr \<lparr>title = Undefined, pdfUrl = Undefined, authors = Arr [],
          journal = Str [], year = Undefined\<rparr>"
  by (simp add: sample_defs pipeline_defs)

text \<open>
  C9, as stated, fails: \<^verbatim>\<open>processDoi\<close> stores the entry under its argument as
  given. From the empty cache, a call with an upper-case DOI leaves an upper-case key.
\<close>

theorem processDoi_stores_key_verbatim:
  "map fst (entries (cache (processAll ev_nopdf [''10.1000/ABC''] (initial_world ev_nopdf)))) =
     [''10.1000/ABC''] \<and>
   toLowerCase ''10.1000/ABC'' \<noteq> ''10.1000/ABC''"
proof
  show "map fst (entries (cache (processAll ev_nopdf [''10.1000/ABC''] (initial_world ev_nopdf)))) =
     [''10.1000/ABC'']"
    by (simp add: processAll_def sample_defs pipeline_defs)
  show "toLowerCase ''10.1000/ABC'' \<noteq> ''10.1000/ABC''"
    by code_simp
qed

text \<open>
  C9, amended. After any sequence of \<^verbatim>\<open>processDoi\<close> calls from the empty cache, every
  key of the entries is one of the DOI arguments of the sequence; so when every
  argument is lower-case, as the extractor's results are, every key is.
\<close>

theorem cache_keys_are_processed_dois:
  "cache_keys (processAll ev ds (initial_world ev)) \<subseteq> set ds \<and>
   ((\<forall>d \<in> set ds. toLowerCase d = d) \<longrightarrow>
      (\<forall>k \<in> cache_keys (processAll ev ds (initial_world ev)). toLowerCase k = k))"
proof -
  have "cache_keys (initial_world ev) = {}"
    by (simp add: cache_keys_def initial_world_def initial_cache_def)
  then have "cache_keys (processAll ev ds (initial_world ev)) \<subseteq> set ds"
    using processAll_keys [of ev ds "initial_world ev"] by simp
  then show ?thesis by blast
qed

theorem cache_keys_are_processed_dois_witness:
  "toLowerCase ''10.1000/abc'' = ''10.1000/abc'' \<and> toLowerCase ''10.1000/x'' = ''10.1000/x'' \<and>
   cache_keys (processAll ev_paper [''10.1000/abc'', ''10.1000/x''] (initial_world ev_paper)) =
     {''10.1000/abc'', ''10.1000/x''} \<and>
   cache_keys (processAll ev_paper [''10.1000/abc'', ''10.1000/x''] (initial_world ev_paper))
     \<subseteq> set [''10.1000/abc'', ''10.1000/x'']"
proof -
  have a: "toLowerCase ''10.1000/abc'' = ''10.1000/abc'' \<and> toLowerCase ''10.1000/x'' = ''10.1000/x''"
    by (simp add: toLowerCase_def lower_char_def is_upper_def)
  have b: "cache_keys (processAll ev_paper [''10.1000/abc'', ''10.1000/x''] (initial_world ev_paper)) =
     {''10.1000/abc'', ''10.1000/x''}"
    by (simp add: cache_keys_def processAll_def sample_defs pipeline_defs)
  show ?thesis
    using a b cache_keys_are_processed_dois [of ev_paper "[''10.1000/abc'', ''10.1000/x'']"]
    by blast
qed

text \<open>
  C10, as stated, fails: when the service answers with success and the body
  \<^verbatim>\<open>null\<close>, the counter is incremented and the cache saved before reading the body
  throws, so the call fails with the credit counted.
\<close>

theorem classifyPaper_null_body_counts_credit:
  "fst (classifyPaper ev_null_body (Str ''A Paper'') (Str ''https://example.org/a.pdf'')
          (initial_world ev_null_body)) = Inl TypeError \<and>
   creditsUsed (cache (initial_world ev_null_body)) = 0 \<and>
   creditsUsed (cache (snd (classifyPaper ev_null_body (Str ''A Paper'')
          (Str ''https://example.org/a.pdf'') (initial_world ev_null_body)))) = 1"
  by (simp add: sample_defs pipeline_defs)

text \<open>
  C10, amended. When \<^verbatim>\<open>classifyPaper\<close> fails because the credit limit is reached,
  the API key is missing, the status is not a success, the request is rejected
  (transport error or timeout) or the body cannot be parsed, the cache is unchanged:
  same entries, same counter, same time stamp, and nothing is written to disk.
\<close>

theorem classifyPaper_failure_keeps_cache:
  assumes "classifyPaper ev ttl pdf w = (Inl e, w')"
    and "e = CreditLimitReached \<or> e = ApiKeyNotConfigured \<or> (\<exists>s. e = Kgx3Status s)
         \<or> e = FetchRejected \<or> e = BodySyntaxError"
  shows "cache w' = cache w \<and> disk w' = disk w"
  using assms
  by (auto simp: classifyPaper_def Let_def
      split: if_splits fetch_reply.splits option.splits sum.splits dest: get_Inl to_string_Inl)

theorem classifyPaper_failure_keeps_cache_witness:
  "fst (classifyPaper ev_flaky (Str ''A Paper'') Undefined (initial_world ev_flaky)) = Inl (Kgx3Status 500) \<and>
   cache (snd (classifyPaper ev_flaky (Str ''A Paper'') Undefined (initial_world ev_flaky))) =
     cache (initial_world ev_flaky) \<and>
   disk (snd (classifyPaper ev_flaky (Str ''A Paper'') Undefined (initial_world ev_flaky))) =
     disk (initial_world ev_flaky)"
proof -
  obtain w' where c: "classifyPaper ev_flaky (Str ''A Paper'') Undefined (initial_world ev_flaky) =
      (Inl (Kgx3Status 500), w')"
    by (simp add: sample_defs pipeline_defs)
  show ?thesis using c classifyPaper_failure_keeps_cache [OF c] by simp
qed

end
